theory Spec2Isabelle
  imports Main
begin

section \<open>JavaScript strings and primitives used by the routes\<close>

text \<open>
  The texts that the routes handle are byte lists: the handles of a request, which have
  passed \<open>cleanUsername\<close> on the page, and the names and messages of the remote API. They
  are ASCII, so \<open>toLowerCase\<close> is the ASCII lowering. The strings that the page reads from
  its user are modelled by their code units, in the section on the page.
\<close>

definition lower_char :: "char \<Rightarrow> char" where
  "lower_char c =
     (case map_of (zip ''ABCDEFGHIJKLMNOPQRSTUVWXYZ'' ''abcdefghijklmnopqrstuvwxyz'') c of
        None \<Rightarrow> c
      | Some l \<Rightarrow> l)"

definition toLowerCase :: "string \<Rightarrow> string" where
  "toLowerCase s = map lower_char s"

fun startsWith :: "'a list \<Rightarrow> 'a list \<Rightarrow> bool" where
  "startsWith s [] = True"
| "startsWith [] (p # ps) = False"
| "startsWith (c # cs) (p # ps) = (c = p \<and> startsWith cs ps)"

fun str_includes :: "string \<Rightarrow> string \<Rightarrow> bool" where
  "str_includes [] pat = (pat = [])"
| "str_includes (c # cs) pat = (startsWith (c # cs) pat \<or> str_includes cs pat)"

definition digit_char :: "nat \<Rightarrow> char" where
  "digit_char d = char_of (48 + d)"

text \<open>The decimal text of a number, as a template literal prints an array index.\<close>

function decimal :: "nat \<Rightarrow> string" where
  "decimal n = (if n < 10 then [digit_char n] else decimal (n div 10) @ [digit_char (n mod 10)])"
  by pat_completeness auto
termination
  by (relation "measure id") auto

declare decimal.simps [simp del]

text \<open>
  \<open>for (let i = 0; i < xs.length; i += n) chunks.push(xs.slice(i, i + n))\<close>.
  The routes call it with the constants 100 and 20 only; a step of 0 would never
  leave the loop, and is given no chunks here.
\<close>

function slices :: "nat \<Rightarrow> 'a list \<Rightarrow> 'a list list" where
  "slices n xs = (if n = 0 \<or> xs = [] then [] else take n xs # slices n (drop n xs))"
  by pat_completeness auto
termination
  by (relation "measure (\<lambda>(n, xs). length xs)") auto

declare slices.simps [simp del]

section \<open>The batch validation route: data\<close>

record profileData =
  name :: "string option"
  bio :: "string option"
  public_repos :: nat
  followers :: nat
  following :: nat
  created_at :: string

datatype vstatus = Valid | Invalid | Deleted | Error

record ValidationResult =
  username :: string
  status :: vstatus
  error :: "string option"
  profileData :: "profileData option"

record CacheEntry =
  result :: ValidationResult
  timestamp :: int

record QuotaWindow =
  count :: nat
  resetTime :: int

definition CACHE_DURATION :: int where
  "CACHE_DURATION = 5 * 60 * 1000"

subsection \<open>The remote API as the route sees it\<close>

text \<open>
  One structured error of a GraphQL response: \<open>path0\<close> is \<open>err.path?.[0]\<close> when it is a
  string (anything else never equals an alias), \<open>etype\<close> is \<open>err.type\<close>.
\<close>

record gql_error =
  path0 :: "string option"
  etype :: "string option"

text \<open>
  What \<open>validateUsernamesGraphQL\<close> gets back from its one call: a thrown fetch, a
  response that is not ok or a body that does not parse (\<open>GqlThrows\<close>), or the parsed
  body with \<open>data.data\<close> as a map from alias to user data and \<open>data.errors || []\<close>.
\<close>

datatype gql_response =
    GqlThrows string
  | GqlBody "string \<rightharpoonup> profileData" "gql_error list"

text \<open>
  What one \<open>fetch\<close> of \<open>/users/{username}\<close> gives: a transport fault with its message,
  or a response with its status, status text and what \<open>response.json()\<close> gives: a
  rejection with its message, or the parsed body (the \<open>message\<close> of an error body, if
  any, and the profile fields of a user body).
\<close>

record rest_body =
  message :: "string option"
  user :: profileData

datatype json_outcome = JsonThrows string | Json rest_body

datatype rest_response =
    FetchThrows string
  | Response nat string json_outcome

section \<open>The batch-query validator\<close>

definition alias_of :: "nat \<Rightarrow> string" where
  "alias_of index = ''user'' @ decimal index"

definition notFound :: "gql_error list \<Rightarrow> string \<Rightarrow> bool" where
  "notFound errors alias =
     list_ex (\<lambda>err. path0 err = Some alias \<and> etype err = Some ''NOT_FOUND'') errors"

text \<open>The body of the \<open>usernames.forEach((username, index) => ...)\<close> of the validator.\<close>

definition graphqlResult ::
  "(string \<rightharpoonup> profileData) \<Rightarrow> gql_error list \<Rightarrow> nat \<Rightarrow> string \<Rightarrow> ValidationResult" where
  "graphqlResult data errors index uname =
     (case data (alias_of index) of
        Some userData \<Rightarrow>
          \<lparr>username = uname, status = Valid, error = None, profileData = Some userData\<rparr>
      | None \<Rightarrow>
          if notFound errors (alias_of index)
          then \<lparr>username = uname, status = Deleted,
                error = Some ''User not found or account deleted'', profileData = None\<rparr>
          else \<lparr>username = uname, status = Error,
                error = Some ''Unexpected GraphQL error'', profileData = None\<rparr>)"

definition graphqlResults ::
  "(string \<rightharpoonup> profileData) \<Rightarrow> gql_error list \<Rightarrow> string list \<Rightarrow> ValidationResult list" where
  "graphqlResults data errors usernames =
     map (\<lambda>(index, uname). graphqlResult data errors index uname) (enumerate 0 usernames)"

section \<open>Process state and the remote side\<close>

text \<open>
  The module-level maps \<open>validationCache\<close> and \<open>rateLimitMap\<close>, the clock that
  \<open>Date.now()\<close> reads, and the log of the remote calls issued so far.
\<close>

datatype net_call = GraphQLCall "string list" | RestUserCall string

record world =
  validationCache :: "string \<rightharpoonup> CacheEntry"
  rateLimitMap :: "string \<rightharpoonup> QuotaWindow"
  clock :: int
  netlog :: "net_call list"

text \<open>
  The remote API and the network: the answer to a call may depend on how many calls were
  issued before it, and each call takes some time. Calls of one \<open>Promise.all\<close> wave are
  charged one after another, in the order in which their results are collected.
\<close>

record remote =
  graphql_api :: "nat \<Rightarrow> string list \<Rightarrow> gql_response"
  users_api :: "nat \<Rightarrow> string \<Rightarrow> rest_response"
  latency :: "nat \<Rightarrow> nat"

definition fetched :: "remote \<Rightarrow> net_call \<Rightarrow> world \<Rightarrow> world" where
  "fetched env c w =
     w\<lparr>clock := clock w + int (latency env (length (netlog w))), netlog := netlog w @ [c]\<rparr>"

definition delay :: "nat \<Rightarrow> world \<Rightarrow> world" where
  "delay ms w = w\<lparr>clock := clock w + int ms\<rparr>"

text \<open>A token is used where JavaScript finds it truthy: present and not empty.\<close>

definition truthy :: "'a list option \<Rightarrow> bool" where
  "truthy t = (case t of None \<Rightarrow> False | Some s \<Rightarrow> s \<noteq> [])"

section \<open>Rate limiter of the batch route\<close>

record RateLimitResult =
  allowed :: bool
  remaining :: int
  rl_resetTime :: int

definition checkRateLimit :: "string \<Rightarrow> bool \<Rightarrow> world \<Rightarrow> RateLimitResult \<times> world" where
  "checkRateLimit ip hasToken w =
     (let now = clock w;
          maxRequests = (if hasToken then 5000 else 60 :: nat)
      in case rateLimitMap w ip of
           None \<Rightarrow>
             (\<lparr>allowed = True, remaining = int maxRequests - 1,
               rl_resetTime = now + 60 * 60 * 1000\<rparr>,
              w\<lparr>rateLimitMap := (rateLimitMap w)
                   (ip \<mapsto> \<lparr>count = 1, resetTime = now + 60 * 60 * 1000\<rparr>)\<rparr>)
         | Some limit \<Rightarrow>
             if now > resetTime limit then
               (\<lparr>allowed = True, remaining = int maxRequests - 1,
                 rl_resetTime = now + 60 * 60 * 1000\<rparr>,
                w\<lparr>rateLimitMap := (rateLimitMap w)
                     (ip \<mapsto> \<lparr>count = 1, resetTime = now + 60 * 60 * 1000\<rparr>)\<rparr>)
             else if count limit \<ge> maxRequests then
               (\<lparr>allowed = False, remaining = 0, rl_resetTime = resetTime limit\<rparr>, w)
             else
               (\<lparr>allowed = True, remaining = int maxRequests - int (count limit + 1),
                 rl_resetTime = resetTime limit\<rparr>,
                w\<lparr>rateLimitMap := (rateLimitMap w)
                     (ip \<mapsto> limit\<lparr>count := count limit + 1\<rparr>)\<rparr>))"

section \<open>Result cache of the batch route\<close>

definition getCachedResult :: "world \<Rightarrow> string \<Rightarrow> ValidationResult option" where
  "getCachedResult w uname =
     (case validationCache w uname of
        None \<Rightarrow> None
      | Some cached \<Rightarrow>
          if clock w - timestamp cached < CACHE_DURATION then Some (result cached) else None)"

definition setCachedResult :: "string \<Rightarrow> ValidationResult \<Rightarrow> world \<Rightarrow> world" where
  "setCachedResult uname res w =
     w\<lparr>validationCache := (validationCache w)
          (uname \<mapsto> \<lparr>result = res, timestamp = clock w\<rparr>)\<rparr>"

text \<open>\<open>results.forEach((result) => setCachedResult(result.username, result))\<close>\<close>

fun cacheResults :: "ValidationResult list \<Rightarrow> world \<Rightarrow> world" where
  "cacheResults [] w = w"
| "cacheResults (r # rs) w = cacheResults rs (setCachedResult (username r) r w)"

section \<open>The batch-query validator with its call\<close>

text \<open>
  \<open>validateUsernamesGraphQL\<close>: one call for the chunk; a failure of the call is rethrown
  to the caller (\<open>Inl\<close>), otherwise one result per handle of the chunk. The token goes
  into the \<open>Authorization\<close> header only, here and in \<open>validateUsernamesREST\<close>; what the
  remote answers is \<open>env\<close>.
\<close>

definition validateUsernamesGraphQL ::
  "remote \<Rightarrow> string list \<Rightarrow> world \<Rightarrow> (string + ValidationResult list) \<times> world" where
  "validateUsernamesGraphQL env usernames w =
     (case graphql_api env (length (netlog w)) usernames of
        GqlThrows msg \<Rightarrow> (Inl msg, fetched env (GraphQLCall usernames) w)
      | GqlBody data errors \<Rightarrow>
          (Inr (graphqlResults data errors usernames), fetched env (GraphQLCall usernames) w))"

section \<open>The single-resource validator of the batch route\<close>

definition error_result :: "string \<Rightarrow> string \<Rightarrow> ValidationResult" where
  "error_result uname msg =
     \<lparr>username = uname, status = Error, error = Some msg, profileData = None\<rparr>"

text \<open>The callback of \<open>chunk.map\<close> in \<open>validateUsernamesREST\<close>, given what its fetch returned.\<close>

definition restResult :: "string \<Rightarrow> rest_response \<Rightarrow> ValidationResult" where
  "restResult uname r =
     (case r of
        FetchThrows msg \<Rightarrow> error_result uname msg
      | Response st stText body \<Rightarrow>
          if st = 200 then
            (case body of
               JsonThrows msg \<Rightarrow> error_result uname msg
             | Json userData \<Rightarrow>
                 \<lparr>username = uname, status = Valid, error = None,
                  profileData = Some (user userData)\<rparr>)
          else if st = 404 then
            \<lparr>username = uname, status = Deleted,
             error = Some ''User not found or account deleted'', profileData = None\<rparr>
          else if st = 403 then error_result uname ''Rate limit exceeded - please wait''
          else error_result uname (''HTTP '' @ decimal st @ '': '' @ stText))"

text \<open>
  The results of single-resource calls for the handles \<open>us\<close> when the first of them is
  call number \<open>n\<close> and the next ones follow it.
\<close>

definition restResults :: "remote \<Rightarrow> nat \<Rightarrow> string list \<Rightarrow> ValidationResult list" where
  "restResults env n us = map (\<lambda>(i, u). restResult u (users_api env i u)) (enumerate n us)"

text \<open>One wave: the fetches of a chunk, their results in the order of the chunk.\<close>

fun restChunk :: "remote \<Rightarrow> string list \<Rightarrow> world \<Rightarrow> ValidationResult list \<times> world" where
  "restChunk env [] w = ([], w)"
| "restChunk env (u # us) w =
     (let r = restResult u (users_api env (length (netlog w)) u);
          (rs, w') = restChunk env us (fetched env (RestUserCall u) w)
      in (r # rs, w'))"

fun restChunks :: "remote \<Rightarrow> string list list \<Rightarrow> world \<Rightarrow> ValidationResult list \<times> world" where
  "restChunks env [] w = ([], w)"
| "restChunks env (chunk # chunks) w =
     (let (chunkResults, w1) = restChunk env chunk w;
          w2 = (if chunks \<noteq> [] then delay 100 w1 else w1);
          (rs, w3) = restChunks env chunks w2
      in (chunkResults @ rs, w3))"

definition validateUsernamesREST ::
  "remote \<Rightarrow> string list \<Rightarrow> world \<Rightarrow> ValidationResult list \<times> world" where
  "validateUsernamesREST env usernames w = restChunks env (slices 20 usernames) w"

section \<open>The handler of the batch route\<close>

datatype method_t = GraphQL | REST | Auto

text \<open>
  The request: the \<open>x-forwarded-for\<close> header and the fields of the body, \<open>method_param\<close>
  being the field \<open>method\<close>.
\<close>

record ValidationRequest =
  forwarded_for :: "string option"
  usernames :: "string list"
  githubToken :: "string option"
  method_param :: "method_t option"

record rate_limit_info =
  info_remaining :: int
  info_resetTime :: int
  info_limit :: nat

record cache_stats =
  cached :: nat
  validated :: nat
  total :: nat

text \<open>
  The body of the 200 response. An entry of \<open>results\<close> is \<open>None\<close> where
  \<open>cached || uncached!\<close> is \<open>undefined\<close>.
\<close>

record ok_body =
  results :: "ValidationResult option list"
  rateLimit :: rate_limit_info
  cacheStats :: cache_stats
  method_used :: method_t

datatype response =
    Status400 string
  | Status429 string int int
  | Status200 ok_body

text \<open>
  The \<open>for (const batch of batches)\<close> loop of the handler: each chunk is validated and
  its results cached before the next chunk starts; the first chunk that throws ends the
  loop with the exception.
\<close>

fun graphqlBatches ::
  "remote \<Rightarrow> string list list \<Rightarrow> ValidationResult list \<Rightarrow> world \<Rightarrow>
   (string + ValidationResult list) \<times> world" where
  "graphqlBatches env [] uncachedResults w = (Inr uncachedResults, w)"
| "graphqlBatches env (batch # batches) uncachedResults w =
     (case validateUsernamesGraphQL env batch w of
        (Inl err, w') \<Rightarrow> (Inl err, w')
      | (Inr batchResults, w') \<Rightarrow>
          graphqlBatches env batches (uncachedResults @ batchResults)
            (cacheResults batchResults w'))"

definition chooseGraphQL :: "method_t \<Rightarrow> string option \<Rightarrow> nat \<Rightarrow> bool" where
  "chooseGraphQL m token misses = (m = GraphQL \<or> (m = Auto \<and> truthy token \<and> misses \<ge> 10))"

text \<open>
  The block \<open>if (uncachedUsernames.length > 0) { ... }\<close> of the handler: the results for
  the misses, the flag \<open>useGraphQL\<close> and the state afterwards. \<open>validateUsernamesREST\<close>
  catches every fault of its own calls, so the \<open>throw error\<close> of the catch block is
  never reached.
\<close>

definition validateUncached ::
  "remote \<Rightarrow> method_t \<Rightarrow> string option \<Rightarrow> string list \<Rightarrow> world \<Rightarrow>
   ValidationResult list \<times> bool \<times> world" where
  "validateUncached env m token uncachedUsernames w =
     (if uncachedUsernames = [] then ([], False, w)
      else
        let useGraphQL = chooseGraphQL m token (length uncachedUsernames) in
        if useGraphQL \<and> truthy token then
          (case graphqlBatches env (slices 100 uncachedUsernames) [] w of
             (Inr uncachedResults, w') \<Rightarrow> (uncachedResults, useGraphQL, w')
           | (Inl err, w') \<Rightarrow>
               (let (uncachedResults, w'') = validateUsernamesREST env uncachedUsernames w'
                in (uncachedResults, useGraphQL, cacheResults uncachedResults w'')))
        else
          (let (uncachedResults, w') = validateUsernamesREST env uncachedUsernames w
           in (uncachedResults, useGraphQL, cacheResults uncachedResults w')))"

definition client_ip :: "ValidationRequest \<Rightarrow> string" where
  "client_ip req =
     (case forwarded_for req of
        None \<Rightarrow> ''unknown''
      | Some ip \<Rightarrow> if ip = [] then ''unknown'' else ip)"

definition find_result :: "ValidationResult list \<Rightarrow> string \<Rightarrow> ValidationResult option" where
  "find_result rs uname = find (\<lambda>r. username r = uname) rs"

definition mergeResults ::
  "ValidationResult list \<Rightarrow> ValidationResult list \<Rightarrow> string list \<Rightarrow>
   ValidationResult option list" where
  "mergeResults cachedResults uncachedResults unames =
     map (\<lambda>uname.
            case find_result cachedResults uname of
              Some c \<Rightarrow> Some c
            | None \<Rightarrow> find_result uncachedResults uname) unames"

definition POST :: "remote \<Rightarrow> ValidationRequest \<Rightarrow> world \<Rightarrow> response \<times> world" where
  "POST env req w =
     (let ip = client_ip req;
          m = (case method_param req of None \<Rightarrow> Auto | Some m' \<Rightarrow> m')
      in
      if usernames req = [] then
        (Status400 ''Invalid request: usernames array is required'', w)
      else if length (usernames req) > 5000 then
        (Status400 ''Too many usernames. Maximum 5000 per request.'', w)
      else
        let (rl, w1) = checkRateLimit ip (truthy (githubToken req)) w in
        if \<not> allowed rl then
          (Status429 ''Rate limit exceeded. Please try again later.''
             (rl_resetTime rl) (remaining rl), w1)
        else
          let cachedResults = List.map_filter (getCachedResult w1) (usernames req);
              uncachedUsernames = filter (\<lambda>u. getCachedResult w1 u = None) (usernames req);
              (uncachedResults, useGraphQL, w2) =
                 validateUncached env m (githubToken req) uncachedUsernames w1
          in
          (Status200
             \<lparr>results = mergeResults cachedResults uncachedResults (usernames req),
              rateLimit = \<lparr>info_remaining = remaining rl, info_resetTime = rl_resetTime rl,
                           info_limit = (if truthy (githubToken req) then 5000 else 60)\<rparr>,
              cacheStats = \<lparr>cached = length cachedResults,
                            validated = length uncachedResults,
                            total = length (usernames req)\<rparr>,
              method_used = (if useGraphQL then GraphQL else REST)\<rparr>,
           w2))"

section \<open>Invariant of the result cache\<close>

text \<open>
  Every entry is stored under the handle of its own result: \<open>setCachedResult\<close> is only
  ever called as \<open>setCachedResult(result.username, result)\<close>.
\<close>

definition cache_wf :: "world \<Rightarrow> bool" where
  "cache_wf w = (\<forall>k e. validationCache w k = Some e \<longrightarrow> username (result e) = k)"

text \<open>The handles of a request that have no fresh entry, in the order of the request.\<close>

definition cacheMisses :: "world \<Rightarrow> string list \<Rightarrow> string list" where
  "cacheMisses w unames = filter (\<lambda>u. getCachedResult w u = None) unames"

definition requested_method :: "ValidationRequest \<Rightarrow> method_t" where
  "requested_method req = (case method_param req of None \<Rightarrow> Auto | Some m \<Rightarrow> m)"

text \<open>The results of a response, none for a response that carries none.\<close>

definition ok_results :: "response \<times> world \<Rightarrow> ValidationResult option list" where
  "ok_results x = (case fst x of Status200 b \<Rightarrow> results b | _ \<Rightarrow> [])"

text \<open>The strategy a response reports, if it reports one.\<close>

definition ok_method :: "response \<times> world \<Rightarrow> method_t option" where
  "ok_method x = (case fst x of Status200 b \<Rightarrow> Some (method_used b) | _ \<Rightarrow> None)"

section \<open>The sequential route: single-resource validator\<close>

text \<open>
  \<open>validateGitHubUsername\<close> of the route that validates one handle per call, given what
  its fetch returned. On a 403 the body is read with \<open>response.json().catch(() => ({}))\<close>.
\<close>

definition validateGitHubUsername :: "string \<Rightarrow> rest_response \<Rightarrow> ValidationResult" where
  "validateGitHubUsername uname r =
     (case r of
        FetchThrows msg \<Rightarrow> error_result uname msg
      | Response st stText body \<Rightarrow>
          if st = 200 then
            (case body of
               JsonThrows msg \<Rightarrow> error_result uname msg
             | Json userData \<Rightarrow>
                 \<lparr>username = uname, status = Valid, error = None,
                  profileData = Some (user userData)\<rparr>)
          else if st = 404 then
            \<lparr>username = uname, status = Deleted,
             error = Some ''User not found or account deleted'', profileData = None\<rparr>
          else if st = 403 then
            (let errorMessage = (case body of JsonThrows msg \<Rightarrow> None
                                 | Json errorData \<Rightarrow> message errorData)
             in case errorMessage of
                  None \<Rightarrow>
                    error_result uname ''Access forbidden - may be private or suspended account''
                | Some msg \<Rightarrow>
                    if msg \<noteq> [] \<and> str_includes msg ''rate limit''
                    then error_result uname ''Rate limit exceeded - please wait''
                    else error_result uname
                           ''Access forbidden - may be private or suspended account'')
          else error_result uname (''HTTP '' @ decimal st @ '': '' @ stText))"

section \<open>The engagement route: single-resource path\<close>

text \<open>
  One entry of the starred list as the check reads it: \<open>r.owner?.login\<close> and \<open>r.name\<close>,
  absent where the chain yields \<open>undefined\<close>.
\<close>

record starred_repo =
  owner_login :: "string option"
  repo_name :: "string option"

text \<open>
  One entry of the repository list: \<open>r.fork\<close>, and for \<open>r.parent\<close> the pair of
  \<open>r.parent.owner?.login\<close> and \<open>r.parent.name\<close>.
\<close>

record listed_repo =
  fork :: bool
  parent :: "(string option \<times> string option) option"

text \<open>
  What one of the two calls of \<open>checkUserEngagement\<close> gives: the fetch throws; the
  response is not ok (with its status); the response is ok but reading its list throws;
  or the response is ok with its list.
\<close>

datatype 'a list_outcome =
    CallThrows string
  | NotOk nat
  | ReadThrows string
  | OkList "'a list"

record Engagement =
  hasStarred :: bool
  hasForked :: bool
  eng_error :: "string option"

definition same_text :: "string option \<Rightarrow> string \<Rightarrow> bool" where
  "same_text field target =
     (case field of None \<Rightarrow> False | Some v \<Rightarrow> toLowerCase v = toLowerCase target)"

text \<open>
  The first inner \<open>try\<close> block: the value of \<open>hasStarred\<close> after it. Whatever is thrown
  inside the block is caught by its own \<open>catch\<close>, which logs and goes on.
\<close>

definition starredCheck :: "string \<Rightarrow> string \<Rightarrow> starred_repo list_outcome \<Rightarrow> bool" where
  "starredCheck targetOwner targetRepo starredRes =
     (case starredRes of
        CallThrows err \<Rightarrow> False
      | NotOk st \<Rightarrow> False
      | ReadThrows err \<Rightarrow> False
      | OkList repos \<Rightarrow>
          list_ex (\<lambda>r. same_text (owner_login r) targetOwner
                       \<and> same_text (repo_name r) targetRepo) repos)"

text \<open>The second inner \<open>try\<close> block: the value of \<open>hasForked\<close> after it.\<close>

definition forkCheck :: "string \<Rightarrow> string \<Rightarrow> listed_repo list_outcome \<Rightarrow> bool" where
  "forkCheck targetOwner targetRepo reposRes =
     (case reposRes of
        CallThrows err \<Rightarrow> False
      | NotOk st \<Rightarrow> False
      | ReadThrows err \<Rightarrow> False
      | OkList repos \<Rightarrow>
          list_ex (\<lambda>r. fork r \<and>
                       (case parent r of
                          None \<Rightarrow> False
                        | Some (login, pname) \<Rightarrow>
                            same_text login targetOwner \<and> same_text pname targetRepo)) repos)"

text \<open>
  \<open>checkUserEngagement\<close>. Both calls sit in their own \<open>try\<close> blocks, and nothing else
  in the outer \<open>try\<close> can throw, so the outer \<open>catch\<close>, the only place that sets
  \<open>error\<close>, is never entered.
\<close>

definition checkUserEngagement ::
  "string \<Rightarrow> string \<Rightarrow> starred_repo list_outcome \<Rightarrow> listed_repo list_outcome \<Rightarrow> Engagement" where
  "checkUserEngagement targetOwner targetRepo starredRes reposRes =
     \<lparr>hasStarred = starredCheck targetOwner targetRepo starredRes,
      hasForked = forkCheck targetOwner targetRepo reposRes,
      eng_error = None\<rparr>"

record UserEngagement = Engagement +
  eng_username :: string

text \<open>The remote side of the engagement check: the two lists of the handle at a position.\<close>

record engagement_remote =
  starred_api :: "nat \<Rightarrow> string \<Rightarrow> starred_repo list_outcome"
  repos_api :: "nat \<Rightarrow> string \<Rightarrow> listed_repo list_outcome"

text \<open>
  \<open>checkUsersEngagementREST\<close>: waves of 20 handles with a token and 5 without; every
  promise of a wave is fulfilled, since its callback catches, and the results are
  collected wave by wave in the order of the handles.
\<close>

definition checkUsersEngagementREST ::
  "engagement_remote \<Rightarrow> string list \<Rightarrow> string \<Rightarrow> string \<Rightarrow> string option \<Rightarrow>
   UserEngagement list" where
  "checkUsersEngagementREST env unames targetOwner targetRepo token =
     (let batchSize = (if truthy token then 20 else 5 :: nat)
      in concat (map (map (\<lambda>(i, u).
                      let r = checkUserEngagement targetOwner targetRepo
                                (starred_api env i u) (repos_api env i u)
                      in \<lparr>hasStarred = hasStarred r, hasForked = hasForked r,
                          eng_error = eng_error r, eng_username = u\<rparr>))
                  (slices batchSize (enumerate 0 unames))))"

section \<open>The control loop of the page: extracting and classifying handles\<close>

subsection \<open>Strings of the page\<close>

text \<open>
  The page reads what the user typed or uploaded, so its strings are modelled as
  JavaScript has them: lists of UTF-16 code units, each a number below 65536. A literal
  of the source is the list of the codes of its characters. The messages that the page
  writes into a record and never reads stay literals.
\<close>

type_synonym jstring = "nat list"

definition js :: "string \<Rightarrow> jstring" where
  "js s = map of_char s"

text \<open>
  \<open>String.prototype.trim\<close> strips white space and line terminators from both ends: tab,
  line feed, vertical tab, form feed, carriage return, space, no-break space (U+00A0),
  the other space separators of Unicode (U+1680, U+2000 to U+200A, U+202F, U+205F,
  U+3000), the line and paragraph separators (U+2028, U+2029) and the byte order mark
  (U+FEFF).
\<close>

definition is_space :: "nat \<Rightarrow> bool" where
  "is_space n =
     (n = 0x20 \<or> (0x09 \<le> n \<and> n \<le> 0x0D) \<or> n = 0xA0 \<or> n = 0x1680
      \<or> (0x2000 \<le> n \<and> n \<le> 0x200A) \<or> n = 0x2028 \<or> n = 0x2029 \<or> n = 0x202F
      \<or> n = 0x205F \<or> n = 0x3000 \<or> n = 0xFEFF)"

definition trim :: "jstring \<Rightarrow> jstring" where
  "trim s = rev (dropWhile is_space (rev (dropWhile is_space s)))"

text \<open>
  The letters A to Z lowered, every other code unit unchanged. This is how a pattern
  with the \<open>i\<close> flag (and without the \<open>u\<close> flag) compares a code unit of the input with an
  ASCII character of the pattern: a code unit outside ASCII is never canonicalised to an
  ASCII one. It is also what \<open>toLowerCase\<close> does on a string of ASCII letters, digits and
  hyphens, and the page calls \<open>toLowerCase\<close> only on the handles that \<open>extractUsername\<close>
  returns, which are such strings (lemma \<open>extractUsername_ascii\<close>).
\<close>

definition lower_unit :: "nat \<Rightarrow> nat" where
  "lower_unit n = (if 0x41 \<le> n \<and> n \<le> 0x5A then n + 0x20 else n)"

definition toLowerCase16 :: "jstring \<Rightarrow> jstring" where
  "toLowerCase16 s = map lower_unit s"

subsection \<open>Regular expressions as the page uses them\<close>

text \<open>
  The patterns of the page are built from literals (compared without regard to case,
  for the patterns that have literals carry the \<open>i\<close> flag), character classes, sequence,
  alternative, greedy option and star, one capture group and the end anchor. The classes
  are \<open>[a-zA-Z0-9]\<close>, \<open>[a-zA-Z0-9-]\<close> and the dot, which matches every code unit but the
  four line terminators.
\<close>

datatype cclass = Alnum | AlnumHyphen | AnyChar

definition is_alnum :: "nat \<Rightarrow> bool" where
  "is_alnum n =
     ((0x30 \<le> n \<and> n \<le> 0x39) \<or> (0x41 \<le> n \<and> n \<le> 0x5A) \<or> (0x61 \<le> n \<and> n \<le> 0x7A))"

fun in_class :: "cclass \<Rightarrow> nat \<Rightarrow> bool" where
  "in_class Alnum n = is_alnum n"
| "in_class AlnumHyphen n = (is_alnum n \<or> n = 0x2D)"
| "in_class AnyChar n = (n \<noteq> 0x0A \<and> n \<noteq> 0x0D \<and> n \<noteq> 0x2028 \<and> n \<noteq> 0x2029)"

datatype rx =
    Eps
  | Lit nat
  | Cls cclass
  | Seq rx rx
  | Alt rx rx
  | Opt rx
  | Star rx
  | Group rx
  | Eol

text \<open>
  A matcher state is the input still to be read and the text captured by the group so
  far. Running a pattern gives the states after each way of matching it, in the order in
  which a backtracking matcher tries them: the first alternative before the second, and
  for greedy option and star the longer match first.
\<close>

type_synonym mstate = "jstring \<times> jstring option"

text \<open>
  Iterations of a starred pattern: each iteration has to consume input, so the length of
  the input bounds their number.
\<close>

fun star_run :: "nat \<Rightarrow> (mstate \<Rightarrow> mstate list) \<Rightarrow> mstate \<Rightarrow> mstate list" where
  "star_run 0 f st = [st]"
| "star_run (Suc n) f st =
     concat (map (star_run n f) (filter (\<lambda>st'. length (fst st') < length (fst st)) (f st)))
     @ [st]"

fun rx_run :: "rx \<Rightarrow> mstate \<Rightarrow> mstate list" where
  "rx_run Eps st = [st]"
| "rx_run (Lit c) st =
     (case fst st of
        [] \<Rightarrow> []
      | x # xs \<Rightarrow> if lower_unit x = lower_unit c then [(xs, snd st)] else [])"
| "rx_run (Cls k) st =
     (case fst st of
        [] \<Rightarrow> []
      | x # xs \<Rightarrow> if in_class k x then [(xs, snd st)] else [])"
| "rx_run (Seq a b) st = concat (map (rx_run b) (rx_run a st))"
| "rx_run (Alt a b) st = rx_run a st @ rx_run b st"
| "rx_run (Opt a) st = rx_run a st @ [st]"
| "rx_run (Star a) st = star_run (length (fst st)) (rx_run a) st"
| "rx_run (Group a) st =
     map (\<lambda>st'. (fst st', Some (take (length (fst st) - length (fst st')) (fst st))))
       (rx_run a st)"
| "rx_run Eol st = (if fst st = [] then [st] else [])"

text \<open>\<open>pattern.test(s)\<close> for a pattern that starts with \<open>^\<close>.\<close>

definition rx_test_at_start :: "rx \<Rightarrow> jstring \<Rightarrow> bool" where
  "rx_test_at_start r s = (rx_run r (s, None) \<noteq> [])"

text \<open>
  \<open>s.match(pattern)\<close> for a pattern without \<open>^\<close>: the match at the leftmost position that
  has one; the result is \<open>match[1]\<close>.
\<close>

fun rx_match :: "rx \<Rightarrow> jstring \<Rightarrow> jstring option option" where
  "rx_match r [] = (case rx_run r ([], None) of [] \<Rightarrow> None | st # _ \<Rightarrow> Some (snd st))"
| "rx_match r (c # cs) =
     (case rx_run r (c # cs, None) of [] \<Rightarrow> rx_match r cs | st # _ \<Rightarrow> Some (snd st))"

text \<open>A run of literal characters.\<close>

fun lits :: "jstring \<Rightarrow> rx" where
  "lits [] = Eps"
| "lits [c] = Lit c"
| "lits (c # cs) = Seq (Lit c) (lits cs)"

text \<open>\<open>[a-zA-Z0-9](?:[a-zA-Z0-9-]*[a-zA-Z0-9])?\<close>\<close>

definition rx_handle :: rx where
  "rx_handle = Seq (Cls Alnum) (Opt (Seq (Star (Cls AlnumHyphen)) (Cls Alnum)))"

text \<open>\<open>(?:https?:\/\/)?\<close>\<close>

definition rx_scheme :: rx where
  "rx_scheme = Opt (Seq (lits (js ''http'')) (Seq (Opt (lits (js ''s''))) (lits (js ''://''))))"

definition githubUrlPatterns :: "rx list" where
  "githubUrlPatterns =
     [Seq rx_scheme (Seq (Opt (lits (js ''www.''))) (Seq (lits (js ''github.com/''))
        (Seq (Group rx_handle) (Seq (Opt (lits (js ''/'')))
          (Seq (Opt (Seq (lits (js ''?'')) (Star (Cls AnyChar))))
            (Seq (Opt (Seq (lits (js ''#'')) (Star (Cls AnyChar)))) Eol)))))),
      Seq rx_scheme
        (Group (Seq rx_handle (Seq (lits (js ''.github.io'')) (Opt (lits (js ''/'')))))),
      Seq (lits (js ''git@github.com:'')) (Seq (Group rx_handle) (Opt (lits (js ''.git''))))]"

subsection \<open>cleanUsername and extractUsername\<close>

text \<open>\<open>username.replace(/\.git$/, "")\<close>\<close>

definition strip_dot_git :: "jstring \<Rightarrow> jstring" where
  "strip_dot_git s =
     (if 4 \<le> length s \<and> drop (length s - 4) s = js ''.git'' then take (length s - 4) s else s)"

text \<open>
  \<open>cleanedValue.replace(/^(?:github:|gh:|git:)/i, "")\<close>: what is left of the input after
  the first way of matching the pattern at its start, the input itself if there is none.
\<close>

definition strip_prefix_tag :: "jstring \<Rightarrow> jstring" where
  "strip_prefix_tag s =
     (case rx_run (Alt (lits (js ''github:'')) (Alt (lits (js ''gh:'')) (lits (js ''git:''))))
             (s, None) of
        [] \<Rightarrow> s
      | st # _ \<Rightarrow> fst st)"

text \<open>\<open>cleanedValue.replace(/\/+$/, "")\<close>\<close>

definition strip_slashes :: "jstring \<Rightarrow> jstring" where
  "strip_slashes s = rev (dropWhile (\<lambda>c. c = 0x2F) (rev s))"

definition cleanUsername :: "jstring \<Rightarrow> jstring option" where
  "cleanUsername uname =
     (if uname = [] then None
      else
        let u = trim uname in
        if \<not> rx_test_at_start (Seq rx_handle Eol) u then None
        else if length u = 0 \<or> length u > 39 then None
        else Some u)"

text \<open>The loop over the URL patterns: the first pattern that matches with a group decides.\<close>

fun tryPatterns :: "rx list \<Rightarrow> jstring \<Rightarrow> jstring option option" where
  "tryPatterns [] v = None"
| "tryPatterns (p # ps) v =
     (case rx_match p v of
        Some (Some g) \<Rightarrow> if g \<noteq> [] then Some (cleanUsername (strip_dot_git g))
                        else tryPatterns ps v
      | _ \<Rightarrow> tryPatterns ps v)"

definition extractUsername :: "jstring \<Rightarrow> jstring option" where
  "extractUsername v0 =
     (if v0 = [] then None
      else
        let v = trim v0 in
        if v = [] then None
        else case tryPatterns githubUrlPatterns v of
               Some r \<Rightarrow> r
             | None \<Rightarrow>
                 let c1 = (if startsWith v (js ''@'') then drop 1 v else v);
                     c2 = strip_prefix_tag c1;
                     c3 = trim (strip_slashes c2)
                 in cleanUsername c3)"

subsection \<open>processUsernames\<close>

datatype ustatus = UValid | UInvalid | UDuplicate | UDeleted | UProcessing | UPending | UError

record ProcessedUser =
  originalValue :: jstring
  username_pu :: "jstring option"
  status_pu :: ustatus
  error_pu :: "string option"
  index_pu :: nat

text \<open>The local variables of the first pass.\<close>

record pass_state =
  users :: "ProcessedUser list"
  seenUsernames :: "jstring \<rightharpoonup> nat"
  duplicateUsernames :: "jstring set"
  validUsernameCount :: nat

text \<open>
  \<open>users.find((u) => u.index === firstIndex)\<close> followed by the update of the record
  found, if its status is \<open>pending\<close>.
\<close>

definition markDuplicate :: "ProcessedUser \<Rightarrow> ProcessedUser" where
  "markDuplicate firstUser =
     (if status_pu firstUser = UPending
      then firstUser\<lparr>status_pu := UDuplicate, error_pu := Some ''Duplicate username found''\<rparr>
      else firstUser)"

fun markFirst :: "nat \<Rightarrow> ProcessedUser list \<Rightarrow> ProcessedUser list" where
  "markFirst firstIndex [] = []"
| "markFirst firstIndex (u # us) =
     (if index_pu u = firstIndex then markDuplicate u # us
      else u # markFirst firstIndex us)"

text \<open>
  The callback of \<open>parsedData.rows.forEach((row, index) => ...)\<close> on the value of the
  column. The handle is lowered by \<open>toLowerCase16\<close> before it is looked up.
\<close>

definition processRow :: "nat \<Rightarrow> jstring \<Rightarrow> pass_state \<Rightarrow> pass_state" where
  "processRow idx original st =
     (let uname = extractUsername original in
      if truthy uname then
        (let lowerUsername = toLowerCase16 (the uname) in
         case seenUsernames st lowerUsername of
           Some firstIndex \<Rightarrow>
             st\<lparr>duplicateUsernames := insert lowerUsername (duplicateUsernames st),
                users := markFirst firstIndex (users st)
                  @ [\<lparr>originalValue = original, username_pu = uname, status_pu = UDuplicate,
                      error_pu = Some ''Duplicate username found'', index_pu = idx\<rparr>]\<rparr>
         | None \<Rightarrow>
             st\<lparr>seenUsernames := (seenUsernames st)(lowerUsername \<mapsto> idx),
                validUsernameCount := validUsernameCount st + 1,
                users := users st
                  @ [\<lparr>originalValue = original, username_pu = uname, status_pu = UPending,
                      error_pu = None, index_pu = idx\<rparr>]\<rparr>)
      else
        st\<lparr>users := users st
             @ [\<lparr>originalValue = original, username_pu = uname, status_pu = UInvalid,
                 error_pu = Some ''Invalid username format or not found'', index_pu = idx\<rparr>]\<rparr>)"

fun processRows :: "nat \<Rightarrow> jstring list \<Rightarrow> pass_state \<Rightarrow> pass_state" where
  "processRows idx [] st = st"
| "processRows idx (row # rows) st = processRows (Suc idx) rows (processRow idx row st)"

definition pass_start :: pass_state where
  "pass_start = \<lparr>users = [], seenUsernames = Map.empty, duplicateUsernames = {},
                 validUsernameCount = 0\<rparr>"

text \<open>
  \<open>processUsernames\<close> on the values of the selected column, one per row: the records it
  hands to \<open>setProcessedUsers\<close>.
\<close>

definition processUsernames :: "jstring list \<Rightarrow> ProcessedUser list" where
  "processUsernames column = users (processRows 0 column pass_start)"

subsection \<open>processManualInput\<close>

fun splitLines :: "jstring \<Rightarrow> jstring list" where
  "splitLines [] = [[]]"
| "splitLines (c # cs) =
     (if c = 0x0A then [] # splitLines cs
      else (case splitLines cs of [] \<Rightarrow> [[c]] | l # ls \<Rightarrow> (c # l) # ls))"

text \<open>\<open>manualInput.split("\n").filter((line) => line.trim())\<close>\<close>

definition manualLines :: "jstring \<Rightarrow> jstring list" where
  "manualLines manualInput = filter (\<lambda>line. trim line \<noteq> []) (splitLines manualInput)"

text \<open>The first loop: the records, the handles seen and the handles seen twice.\<close>

fun manualPass ::
  "nat \<Rightarrow> jstring list \<Rightarrow> ProcessedUser list \<times> jstring set \<times> jstring set \<Rightarrow>
   ProcessedUser list \<times> jstring set \<times> jstring set" where
  "manualPass idx [] acc = acc"
| "manualPass idx (line # ls) (us, seen, dups) =
     (let original = trim line;
          uname = extractUsername original;
          (seen', dups') =
             (if truthy uname then
                (if toLowerCase16 (the uname) \<in> seen
                 then (seen, insert (toLowerCase16 (the uname)) dups)
                 else (insert (toLowerCase16 (the uname)) seen, dups))
              else (seen, dups))
      in manualPass (Suc idx) ls
           (us @ [\<lparr>originalValue = original, username_pu = uname,
                    status_pu = (if truthy uname then UPending else UInvalid),
                    error_pu = (if truthy uname then None else Some ''Invalid username format''),
                    index_pu = idx\<rparr>],
            seen', dups'))"

text \<open>The second loop, \<open>users.forEach\<close>, on one record.\<close>

definition flagDuplicate :: "jstring set \<Rightarrow> ProcessedUser \<Rightarrow> ProcessedUser" where
  "flagDuplicate dups u =
     (if truthy (username_pu u) \<and> toLowerCase16 (the (username_pu u)) \<in> dups
      then u\<lparr>status_pu := UDuplicate, error_pu := Some ''Duplicate username found''\<rparr>
      else u)"

text \<open>
  \<open>processManualInput\<close>: nothing is set when the input is blank; otherwise the records
  handed to \<open>setProcessedUsers\<close>.
\<close>

definition processManualInput :: "jstring \<Rightarrow> ProcessedUser list option" where
  "processManualInput manualInput =
     (if trim manualInput = [] then None
      else
        let (us, seen, dups) = manualPass 0 (manualLines manualInput) ([], {}, {})
        in Some (map (flagDuplicate dups) us))"

text \<open>
  \<open>validateWithGitHub\<close>: the handles it submits, those of the records that are
  \<open>pending\<close> and have a handle.
\<close>

definition usernamesToValidate :: "ProcessedUser list \<Rightarrow> jstring list" where
  "usernamesToValidate us =
     filter (\<lambda>n. n \<noteq> [])
       (map (\<lambda>u. the (username_pu u))
          (filter (\<lambda>u. status_pu u = UPending \<and> truthy (username_pu u)) us))"

subsection \<open>Notions used to state what the two passes compute\<close>

text \<open>
  Two rows have the same handle when both yield a handle and the handles are equal once
  lowered, which is how both passes compare them. A row is repeated when another row of
  the list has the same handle.
\<close>

definition same_handle :: "jstring list \<Rightarrow> nat \<Rightarrow> nat \<Rightarrow> bool" where
  "same_handle rows i j =
     (case (extractUsername (rows ! i), extractUsername (rows ! j)) of
        (Some a, Some b) \<Rightarrow> toLowerCase16 a = toLowerCase16 b
      | _ \<Rightarrow> False)"

definition repeated :: "jstring list \<Rightarrow> nat \<Rightarrow> bool" where
  "repeated rows k = (\<exists>k' \<in> {0..<length rows}. k' \<noteq> k \<and> same_handle rows k k')"

text \<open>
  What holds of the first pass of \<open>processUsernames\<close> after the rows \<open>pre\<close>: the records
  are those of the rows, in order; a handle is recorded as seen exactly with the row of
  its first occurrence; and a record with a handle that is not flagged \<open>duplicate\<close> is
  \<open>pending\<close> and the only row with its handle.
\<close>

definition pass_inv :: "jstring list \<Rightarrow> pass_state \<Rightarrow> bool" where
  "pass_inv pre st =
     (length (users st) = length pre
      \<and> (\<forall>k < length pre.
            index_pu (users st ! k) = k
            \<and> username_pu (users st ! k) = extractUsername (pre ! k)
            \<and> originalValue (users st ! k) = pre ! k
            \<and> (extractUsername (pre ! k) = None \<longrightarrow> status_pu (users st ! k) = UInvalid)
            \<and> (extractUsername (pre ! k) \<noteq> None \<longrightarrow>
                 status_pu (users st ! k) = UPending \<or> status_pu (users st ! k) = UDuplicate))
      \<and> (\<forall>l k. seenUsernames st l = Some k \<longrightarrow>
            k < length pre \<and> (\<exists>u. extractUsername (pre ! k) = Some u \<and> toLowerCase16 u = l))
      \<and> (\<forall>k < length pre. \<forall>u. extractUsername (pre ! k) = Some u \<longrightarrow>
            seenUsernames st (toLowerCase16 u) \<noteq> None)
      \<and> (\<forall>k < length pre. \<forall>u. extractUsername (pre ! k) = Some u \<longrightarrow>
            status_pu (users st ! k) \<noteq> UDuplicate \<longrightarrow>
            seenUsernames st (toLowerCase16 u) = Some k
            \<and> (\<forall>k' < length pre. k' \<noteq> k \<longrightarrow> \<not> same_handle pre k k')))"

text \<open>And conversely: a record flagged \<open>duplicate\<close> has another row with its handle.\<close>

definition dup_inv :: "jstring list \<Rightarrow> pass_state \<Rightarrow> bool" where
  "dup_inv pre st =
     (\<forall>k < length pre. status_pu (users st ! k) = UDuplicate \<longrightarrow>
        (\<exists>k' < length pre. k' \<noteq> k \<and> same_handle pre k k'))"

text \<open>The code units that a pattern can consume.\<close>

fun rx_accepts :: "rx \<Rightarrow> nat \<Rightarrow> bool" where
  "rx_accepts Eps x = False"
| "rx_accepts (Lit c) x = (lower_unit x = lower_unit c)"
| "rx_accepts (Cls k) x = in_class k x"
| "rx_accepts (Seq a b) x = (rx_accepts a x \<or> rx_accepts b x)"
| "rx_accepts (Alt a b) x = (rx_accepts a x \<or> rx_accepts b x)"
| "rx_accepts (Opt a) x = rx_accepts a x"
| "rx_accepts (Star a) x = rx_accepts a x"
| "rx_accepts (Group a) x = rx_accepts a x"
| "rx_accepts Eol x = False"

section \<open>Concrete inputs\<close>

definition octocat_profile :: profileData where
  "octocat_profile =
     \<lparr>name = Some ''The Octocat'', bio = None, public_repos = 8, followers = 9000,
      following = 9, created_at = ''2011-01-25T18:44:36Z''\<rparr>"

text \<open>The profile fields of a body that is not a user, which no path reads.\<close>

definition blank_profile :: profileData where
  "blank_profile =
     \<lparr>name = None, bio = None, public_repos = 0, followers = 0, following = 0,
      created_at = []\<rparr>"

text \<open>
  A remote that knows \<open>octocat\<close> only: its batch endpoint answers every chunk with data
  for the first alias and a \<open>NOT_FOUND\<close> error for the second.
\<close>

definition remote1 :: remote where
  "remote1 =
     \<lparr>graphql_api = (\<lambda>n us. GqlBody [''user0'' \<mapsto> octocat_profile]
                          [\<lparr>path0 = Some ''user1'', etype = Some ''NOT_FOUND''\<rparr>]),
      users_api = (\<lambda>n u. if u = ''octocat''
                           then Response 200 ''OK'' (Json \<lparr>message = None, user = octocat_profile\<rparr>)
                           else Response 404 ''Not Found''
                                  (Json \<lparr>message = Some ''Not Found'', user = blank_profile\<rparr>)),
      latency = (\<lambda>n. 40)\<rparr>"

text \<open>
  A remote whose batch endpoint is down and which cannot be reached for any handle but
  \<open>octocat\<close>.
\<close>

definition remote_down :: remote where
  "remote_down =
     \<lparr>graphql_api = (\<lambda>n us. GqlThrows ''GraphQL request failed: 502''),
      users_api = (\<lambda>n u. if u = ''octocat''
                           then Response 200 ''OK'' (Json \<lparr>message = None, user = octocat_profile\<rparr>)
                           else FetchThrows ''fetch failed''),
      latency = (\<lambda>n. 40)\<rparr>"

text \<open>A process that validated \<open>torvalds\<close> one minute ago.\<close>

definition torvalds_result :: ValidationResult where
  "torvalds_result =
     \<lparr>username = ''torvalds'', status = Valid, error = None,
      profileData = Some \<lparr>name = Some ''Linus Torvalds'', bio = None, public_repos = 7,
                          followers = 200000, following = 0,
                          created_at = ''2011-09-03T15:26:22Z''\<rparr>\<rparr>"

definition world_torvalds :: world where
  "world_torvalds =
     \<lparr>validationCache = [''torvalds'' \<mapsto> \<lparr>result = torvalds_result,
                                              timestamp = 1700000000000 - 60000\<rparr>],
      rateLimitMap = Map.empty, clock = 1700000000000, netlog = []\<rparr>"

text \<open>The same process after the caller has used up an unauthenticated window.\<close>

definition world_exhausted :: world where
  "world_exhausted =
     world_torvalds\<lparr>rateLimitMap :=
       [''203.0.113.7'' \<mapsto> \<lparr>count = 60, resetTime = 1700000000000 + 1800000\<rparr>]\<rparr>"

definition req_torvalds :: ValidationRequest where
  "req_torvalds =
     \<lparr>forwarded_for = Some ''203.0.113.7'', usernames = [''torvalds''],
      githubToken = None, method_param = None\<rparr>"

definition req_three :: ValidationRequest where
  "req_three =
     \<lparr>forwarded_for = Some ''203.0.113.7'',
      usernames = [''torvalds'', ''octocat'', ''ghost''],
      githubToken = Some ''ghp_example'', method_param = Some GraphQL\<rparr>"

definition handles :: "nat \<Rightarrow> string list" where
  "handles n = map (\<lambda>i. ''dev-'' @ decimal i) [0..<n]"

definition req_auto :: "nat \<Rightarrow> ValidationRequest" where
  "req_auto n =
     \<lparr>forwarded_for = Some ''203.0.113.7'', usernames = handles n,
      githubToken = Some ''ghp_example'', method_param = Some Auto\<rparr>"

text \<open>
  A remote whose batch endpoint answers the first call it gets (knowing none of the
  handles) and fails from the second call on.
\<close>

definition remote_flaky :: remote where
  "remote_flaky =
     \<lparr>graphql_api = (\<lambda>n us. if n = 0 then GqlBody Map.empty []
                              else GqlThrows ''GraphQL request failed: 502''),
      users_api = (\<lambda>n u. Response 404 ''Not Found''
                             (Json \<lparr>message = Some ''Not Found'', user = blank_profile\<rparr>)),
      latency = (\<lambda>n. 40)\<rparr>"

definition req_graphql :: "nat \<Rightarrow> ValidationRequest" where
  "req_graphql n =
     \<lparr>forwarded_for = Some ''203.0.113.7'', usernames = handles n,
      githubToken = Some ''ghp_example'', method_param = Some GraphQL\<rparr>"

text \<open>The three values of the scenario, and the same as typed lines.\<close>

definition scenario_rows :: "jstring list" where
  "scenario_rows =
     [js ''octocat'', js ''OCTOCAT'',
      js ''this_is_way_too_long_to_be_a_valid_handle_over_39_chars'']"

definition scenario_text :: jstring where
  "scenario_text =
     js ''octocat'' @ [0x0A] @ js ''OCTOCAT'' @ [0x0A]
       @ js ''this_is_way_too_long_to_be_a_valid_handle_over_39_chars''"

text \<open>
  Four values, of which the first and the third yield the same handle up to case, the
  second another handle and the last none; and the same typed as lines, with a no-break
  space before the first and a byte order mark after the third.
\<close>

definition mixed_rows :: "jstring list" where
  "mixed_rows =
     [js ''octocat'', js ''https://github.com/torvalds'', js ''@OctoCat'', js ''no handle'']"

definition mixed_text :: jstring where
  "mixed_text =
     [0xA0] @ js ''octocat'' @ [0x0A] @ js ''https://github.com/torvalds'' @ [0x0A]
       @ js ''@OctoCat'' @ [0xFEFF, 0x0A] @ js ''no handle''"

text \<open>
  The engagement data of a remote that answers 404 for the starred list of \<open>octocat\<close>,
  lists one fork of \<open>Vercel/Next.js\<close> for it, and cannot be reached for anyone else.
\<close>

definition remote_eng :: engagement_remote where
  "remote_eng =
     \<lparr>starred_api = (\<lambda>i u. if u = ''octocat'' then NotOk 404 else CallThrows ''fetch failed''),
      repos_api = (\<lambda>i u. if u = ''octocat''
                          then OkList [\<lparr>fork = True,
                                        parent = Some (Some ''Vercel'', Some ''Next.js'')\<rparr>]
                          else CallThrows ''fetch failed'')\<rparr>"

text \<open>A request for the batch protocol that carries no token.\<close>

definition req_graphql_no_token :: ValidationRequest where
  "req_graphql_no_token =
     \<lparr>forwarded_for = Some ''203.0.113.7'', usernames = [''octocat'', ''ghost''],
      githubToken = None, method_param = Some GraphQL\<rparr>"

definition world0 :: world where
  "world0 = \<lparr>validationCache = Map.empty, rateLimitMap = Map.empty,
             clock = 1700000000000, netlog = []\<rparr>"

section \<open>Properties\<close>

subsection \<open>The batch-query validator\<close>

lemma length_graphqlResults [simp]:
  "length (graphqlResults data errors unames) = length unames"
  by (simp add: graphqlResults_def)

lemma nth_graphqlResults:
  "i < length unames \<Longrightarrow>
   graphqlResults data errors unames ! i = graphqlResult data errors i (unames ! i)"
  by (simp add: graphqlResults_def nth_enumerate_eq)

lemma username_graphqlResult [simp]:
  "username (graphqlResult data errors i u) = u"
  by (simp add: graphqlResult_def split: option.splits)

lemma map_username_graphqlResults [simp]:
  "map username (graphqlResults data errors unames) = unames"
  by (rule nth_equalityI) (simp_all add: nth_graphqlResults)

text \<open>
  C5. For the handle at position \<open>i\<close> of a chunk whose call returned a body, the result
  at position \<open>i\<close> carries that handle and: is \<open>valid\<close> with the profile found under the
  alias \<open>user<i>\<close> when the body has data for the alias; is \<open>deleted\<close> when it has none and
  some structured error has the alias as first path element and type \<open>NOT_FOUND\<close>; is
  \<open>error\<close> with the message \<open>Unexpected GraphQL error\<close> when it has none and no such
  error.
\<close>

theorem graphql_alias_mapping:
  assumes "graphql_api env (length (netlog w)) unames = GqlBody data errors"
    and "i < length unames"
  shows "\<exists>rs. fst (validateUsernamesGraphQL env unames w) = Inr rs
           \<and> length rs = length unames
           \<and> username (rs ! i) = unames ! i
           \<and> (\<forall>p. data (alias_of i) = Some p \<longrightarrow>
                  status (rs ! i) = Valid \<and> profileData (rs ! i) = Some p
                  \<and> error (rs ! i) = None)
           \<and> (data (alias_of i) = None
                \<and> (\<exists>e \<in> set errors. path0 e = Some (alias_of i) \<and> etype e = Some ''NOT_FOUND'')
                \<longrightarrow> status (rs ! i) = Deleted
                    \<and> error (rs ! i) = Some ''User not found or account deleted'')
           \<and> (data (alias_of i) = None
                \<and> \<not> (\<exists>e \<in> set errors. path0 e = Some (alias_of i) \<and> etype e = Some ''NOT_FOUND'')
                \<longrightarrow> status (rs ! i) = Error
                    \<and> error (rs ! i) = Some ''Unexpected GraphQL error'')"
proof -
  have run: "fst (validateUsernamesGraphQL env unames w) = Inr (graphqlResults data errors unames)"
    using assms(1) by (simp add: validateUsernamesGraphQL_def)
  have at: "graphqlResults data errors unames ! i = graphqlResult data errors i (unames ! i)"
    using assms(2) by (rule nth_graphqlResults)
  have nf: "notFound errors (alias_of i)
      \<longleftrightarrow> (\<exists>e \<in> set errors. path0 e = Some (alias_of i) \<and> etype e = Some ''NOT_FOUND'')"
    by (simp add: notFound_def list_ex_iff)
  show ?thesis
    using nf by (auto simp: run at graphqlResult_def split: option.splits)
qed

theorem graphql_alias_mapping_witness:
  "\<exists>rs. fst (validateUsernamesGraphQL remote1 [''octocat'', ''ghost'', ''odd''] world0) = Inr rs
     \<and> status (rs ! 0) = Valid \<and> status (rs ! 1) = Deleted \<and> status (rs ! 2) = Error"
proof -
  let ?us = "[''octocat'', ''ghost'', ''odd'']"
  let ?data = "[''user0'' \<mapsto> octocat_profile]"
  let ?errors = "[\<lparr>path0 = Some ''user1'', etype = Some ''NOT_FOUND''\<rparr>]"
  have call: "graphql_api remote1 (length (netlog world0)) ?us = GqlBody ?data ?errors"
    by (simp add: remote1_def)
  have al: "alias_of 0 = ''user0''" "alias_of 1 = ''user1''" "alias_of 2 = ''user2''"
    by code_simp+
  have len: "0 < length ?us" "1 < length ?us" "2 < length ?us"
    by simp_all
  obtain rs0 where r0: "fst (validateUsernamesGraphQL remote1 ?us world0) = Inr rs0"
    "status (rs0 ! 0) = Valid"
    using graphql_alias_mapping [OF call len(1)] unfolding al by fastforce
  obtain rs1 where r1: "fst (validateUsernamesGraphQL remote1 ?us world0) = Inr rs1"
    "status (rs1 ! 1) = Deleted"
    using graphql_alias_mapping [OF call len(2)] unfolding al by fastforce
  obtain rs2 where r2: "fst (validateUsernamesGraphQL remote1 ?us world0) = Inr rs2"
    "status (rs2 ! 2) = Error"
    using graphql_alias_mapping [OF call len(3)] unfolding al by fastforce
  from r0 r1 r2 have "rs1 = rs0" "rs2 = rs0" by simp_all
  with r0 r1 r2 show ?thesis by blast
qed

subsection \<open>The two single-resource validators on a 403\<close>

lemma validateGitHubUsername_403:
  "validateGitHubUsername u (Response 403 txt body) =
     error_result u
       (if (\<exists>b msg. body = Json b \<and> message b = Some msg \<and> msg \<noteq> []
               \<and> str_includes msg ''rate limit'')
        then ''Rate limit exceeded - please wait''
        else ''Access forbidden - may be private or suspended account'')"
  by (cases body) (auto simp: validateGitHubUsername_def split: option.splits)

lemma restResult_403:
  "restResult u (Response 403 txt body) = error_result u ''Rate limit exceeded - please wait''"
  by (simp add: restResult_def)

text \<open>
  C8. A 403 whose body says \<open>Account suspended\<close>, with no mention of a rate limit: the
  validator of the sequential route answers \<open>Access forbidden - may be private or
  suspended account\<close>, as the claim says; the single-resource validator of the batch
  route answers \<open>Rate limit exceeded - please wait\<close>, the same as for a 403 that does
  carry a rate-limit message. The batch route does not tell the two cases apart.
\<close>

theorem batch_rest_403_always_rate_limit:
  "restResult ''ghost''
       (Response 403 ''Forbidden'' (Json \<lparr>message = Some ''Account suspended'', user = blank_profile\<rparr>))
     = error_result ''ghost'' ''Rate limit exceeded - please wait''
   \<and> restResult ''ghost''
       (Response 403 ''Forbidden''
          (Json \<lparr>message = Some ''API rate limit exceeded for 203.0.113.7'', user = blank_profile\<rparr>))
     = error_result ''ghost'' ''Rate limit exceeded - please wait''
   \<and> validateGitHubUsername ''ghost''
       (Response 403 ''Forbidden'' (Json \<lparr>message = Some ''Account suspended'', user = blank_profile\<rparr>))
     = error_result ''ghost'' ''Access forbidden - may be private or suspended account''
   \<and> validateGitHubUsername ''ghost''
       (Response 403 ''Forbidden''
          (Json \<lparr>message = Some ''API rate limit exceeded for 203.0.113.7'', user = blank_profile\<rparr>))
     = error_result ''ghost'' ''Rate limit exceeded - please wait''"
  by (simp add: restResult_403 validateGitHubUsername_403)

lemma fetched_fields [simp]:
  "validationCache (fetched env c w) = validationCache w"
  "rateLimitMap (fetched env c w) = rateLimitMap w"
  "netlog (fetched env c w) = netlog w @ [c]"
  by (simp_all add: fetched_def)

lemma clock_fetched: "clock w \<le> clock (fetched env c w)"
  by (simp add: fetched_def)

lemma delay_fields [simp]:
  "validationCache (delay ms w) = validationCache w"
  "rateLimitMap (delay ms w) = rateLimitMap w"
  "netlog (delay ms w) = netlog w"
  by (simp_all add: delay_def)

lemma clock_delay: "clock w \<le> clock (delay ms w)"
  by (simp add: delay_def)

lemma setCachedResult_fields [simp]:
  "validationCache (setCachedResult k r w) = (validationCache w)(k \<mapsto> \<lparr>result = r, timestamp = clock w\<rparr>)"
  "rateLimitMap (setCachedResult k r w) = rateLimitMap w"
  "netlog (setCachedResult k r w) = netlog w"
  "clock (setCachedResult k r w) = clock w"
  by (simp_all add: setCachedResult_def)

lemma cacheResults_frame [simp]:
  "rateLimitMap (cacheResults rs w) = rateLimitMap w"
  "netlog (cacheResults rs w) = netlog w"
  "clock (cacheResults rs w) = clock w"
  by (induction rs arbitrary: w) simp_all

lemma find_app:
  "find P (xs @ ys) = (case find P xs of None \<Rightarrow> find P ys | Some x \<Rightarrow> Some x)"
  by (induction xs) simp_all

lemma cacheResults_cache:
  "validationCache (cacheResults rs w) k =
     (case find_result (rev rs) k of
        Some r \<Rightarrow> Some \<lparr>result = r, timestamp = clock w\<rparr>
      | None \<Rightarrow> validationCache w k)"
proof (induction rs arbitrary: w)
  case Nil
  then show ?case by (simp add: find_result_def)
next
  case (Cons r rs)
  then show ?case
    by (auto simp: find_result_def find_app split: option.splits)
qed

lemma concat_slices: "0 < n \<Longrightarrow> concat (slices n xs) = xs"
proof (induction n xs rule: slices.induct)
  case (1 n xs)
  then show ?case
    by (subst slices.simps) simp
qed

lemma username_error_result [simp]: "username (error_result u msg) = u"
  by (simp add: error_result_def)

lemma username_restResult [simp]: "username (restResult u r) = u"
  by (simp add: restResult_def split: rest_response.splits json_outcome.splits)

lemma restChunk_props:
  "restChunk env us w = (rs, w') \<Longrightarrow>
     map username rs = us \<and> netlog w' = netlog w @ map RestUserCall us
     \<and> validationCache w' = validationCache w \<and> rateLimitMap w' = rateLimitMap w
     \<and> clock w \<le> clock w'"
proof (induction us arbitrary: w rs w')
  case Nil
  then show ?case by simp
next
  case (Cons u us)
  let ?w1 = "fetched env (RestUserCall u) w"
  obtain rs1 w1 where rec: "restChunk env us ?w1 = (rs1, w1)"
    by (cases "restChunk env us ?w1")
  have rs: "rs = restResult u (users_api env (length (netlog w)) u) # rs1" and w': "w' = w1"
    using Cons.prems rec by (simp_all add: Let_def)
  from Cons.IH [OF rec] clock_fetched [of w env "RestUserCall u"] show ?case
    unfolding rs w' by simp
qed

lemma restChunks_props:
  "restChunks env chunks w = (rs, w') \<Longrightarrow>
     map username rs = concat chunks \<and> netlog w' = netlog w @ map RestUserCall (concat chunks)
     \<and> validationCache w' = validationCache w \<and> rateLimitMap w' = rateLimitMap w
     \<and> clock w \<le> clock w'"
proof (induction chunks arbitrary: w rs w')
  case Nil
  then show ?case by simp
next
  case (Cons chunk chunks)
  obtain rs1 w1 where one: "restChunk env chunk w = (rs1, w1)"
    by (cases "restChunk env chunk w")
  let ?w2 = "if chunks \<noteq> [] then delay 100 w1 else w1"
  obtain rs2 w3 where rec: "restChunks env chunks ?w2 = (rs2, w3)"
    by (cases "restChunks env chunks ?w2")
  have rs: "rs = rs1 @ rs2" and w': "w' = w3"
    using Cons.prems one rec by (simp_all add: Let_def)
  have frame: "netlog ?w2 = netlog w1" "validationCache ?w2 = validationCache w1"
    "rateLimitMap ?w2 = rateLimitMap w1"
    by simp_all
  have "clock w1 \<le> clock ?w2"
    using clock_delay [of w1 100] by simp
  with restChunk_props [OF one] Cons.IH [OF rec] frame show ?case
    unfolding rs w' by simp
qed

lemma validateUsernamesREST_props:
  assumes "validateUsernamesREST env us w = (rs, w')"
  shows "map username rs = us" and "netlog w' = netlog w @ map RestUserCall us"
    and "validationCache w' = validationCache w" and "rateLimitMap w' = rateLimitMap w"
    and "clock w \<le> clock w'"
  using restChunks_props [of env "slices 20 us" w rs w'] assms
  by (simp_all add: validateUsernamesREST_def concat_slices)

lemma validateUsernamesGraphQL_world:
  "snd (validateUsernamesGraphQL env us w) = fetched env (GraphQLCall us) w"
  by (simp add: validateUsernamesGraphQL_def split: gql_response.splits)

lemma validateUsernamesGraphQL_names:
  "validateUsernamesGraphQL env us w = (Inr rs, w') \<Longrightarrow> map username rs = us"
  by (auto simp: validateUsernamesGraphQL_def split: gql_response.splits)

lemma cache_wf_setCachedResult:
  "cache_wf w \<Longrightarrow> cache_wf (setCachedResult (username r) r w)"
  by (simp add: cache_wf_def)

lemma cache_wf_cacheResults: "cache_wf w \<Longrightarrow> cache_wf (cacheResults rs w)"
  by (induction rs arbitrary: w) (simp_all add: cache_wf_setCachedResult)

lemma cache_wf_frame:
  "validationCache w' = validationCache w \<Longrightarrow> cache_wf w' = cache_wf w"
  by (simp add: cache_wf_def)

lemma find_result_Some: "find_result rs u = Some r \<Longrightarrow> username r = u \<and> r \<in> set rs"
  by (auto simp: find_result_def find_Some_iff)

lemma find_result_None: "find_result rs u = None \<longleftrightarrow> u \<notin> username ` set rs"
  by (auto simp: find_result_def find_None_iff)

lemma find_result_append:
  "find_result (xs @ ys) u =
     (case find_result xs u of None \<Rightarrow> find_result ys u | Some x \<Rightarrow> Some x)"
  unfolding find_result_def by (rule find_app)

lemma graphqlBatches_Cons_Inr:
  assumes "graphqlBatches env (b # bs) acc w = (Inr rs, w')"
  shows "\<exists>brs. validateUsernamesGraphQL env b w = (Inr brs, fetched env (GraphQLCall b) w)
           \<and> graphqlBatches env bs (acc @ brs)
                (cacheResults brs (fetched env (GraphQLCall b) w)) = (Inr rs, w')"
proof (cases "graphql_api env (length (netlog w)) b")
  case (GqlThrows msg)
  with assms show ?thesis
    by (simp add: validateUsernamesGraphQL_def)
next
  case (GqlBody data errors)
  with assms show ?thesis
    by (simp add: validateUsernamesGraphQL_def)
qed

lemma graphqlBatches_ok_frame:
  "graphqlBatches env bs acc w = (Inr rs, w') \<Longrightarrow>
   map username rs = map username acc @ concat bs
     \<and> netlog w' = netlog w @ map GraphQLCall bs
     \<and> rateLimitMap w' = rateLimitMap w
     \<and> clock w \<le> clock w'"
proof (induction bs arbitrary: acc w)
  case Nil
  then show ?case by simp
next
  case (Cons b bs)
  let ?w1 = "fetched env (GraphQLCall b) w"
  from graphqlBatches_Cons_Inr [OF Cons.prems] obtain brs where
    one: "validateUsernamesGraphQL env b w = (Inr brs, ?w1)"
    and rec: "graphqlBatches env bs (acc @ brs) (cacheResults brs ?w1) = (Inr rs, w')"
    by blast
  have names: "map username brs = b"
    using one by (rule validateUsernamesGraphQL_names)
  from Cons.IH [OF rec] names clock_fetched [of w env "GraphQLCall b"] show ?case
    by simp
qed

lemma graphqlBatches_ok_wf:
  "graphqlBatches env bs acc w = (Inr rs, w') \<Longrightarrow> cache_wf w \<Longrightarrow> cache_wf w'"
proof (induction bs arbitrary: acc w)
  case Nil
  then show ?case by simp
next
  case (Cons b bs)
  let ?w1 = "fetched env (GraphQLCall b) w"
  from graphqlBatches_Cons_Inr [OF Cons.prems(1)] obtain brs where
    rec: "graphqlBatches env bs (acc @ brs) (cacheResults brs ?w1) = (Inr rs, w')"
    by blast
  have "cache_wf ?w1"
    using Cons.prems(2) cache_wf_frame [of ?w1 w] by simp
  then have "cache_wf (cacheResults brs ?w1)"
    by (rule cache_wf_cacheResults)
  with Cons.IH [OF rec] show ?case .
qed

text \<open>
  What a pass has written: for every handle, the last result produced for it is what the
  cache holds, stamped between \<open>lo\<close> and the current time.
\<close>

lemma written_step:
  assumes pre: "\<forall>u r. find_result (rev acc) u = Some r \<longrightarrow>
            (\<exists>e. validationCache w u = Some e \<and> result e = r
                 \<and> lo \<le> timestamp e \<and> timestamp e \<le> clock w)"
    and lo: "lo \<le> clock w1" and mono: "clock w \<le> clock w1"
    and frame: "validationCache w1 = validationCache w"
  shows "\<forall>u r. find_result (rev (acc @ brs)) u = Some r \<longrightarrow>
            (\<exists>e. validationCache (cacheResults brs w1) u = Some e \<and> result e = r
                 \<and> lo \<le> timestamp e \<and> timestamp e \<le> clock (cacheResults brs w1))"
proof (intro allI impI)
  fix u r
  assume f: "find_result (rev (acc @ brs)) u = Some r"
  show "\<exists>e. validationCache (cacheResults brs w1) u = Some e \<and> result e = r
                 \<and> lo \<le> timestamp e \<and> timestamp e \<le> clock (cacheResults brs w1)"
  proof (cases "find_result (rev brs) u")
    case None
    with f have "find_result (rev acc) u = Some r"
      by (simp add: find_result_append)
    with pre obtain e where "validationCache w u = Some e" "result e = r"
      "lo \<le> timestamp e" "timestamp e \<le> clock w"
      by blast
    with None mono frame show ?thesis
      by (simp add: cacheResults_cache)
  next
    case (Some r')
    with f have "r' = r"
      by (simp add: find_result_append)
    with Some lo show ?thesis
      by (simp add: cacheResults_cache)
  qed
qed

lemma graphqlBatches_ok_written:
  assumes "graphqlBatches env bs acc w = (Inr rs, w')"
    and "\<forall>u r. find_result (rev acc) u = Some r \<longrightarrow>
            (\<exists>e. validationCache w u = Some e \<and> result e = r
                 \<and> lo \<le> timestamp e \<and> timestamp e \<le> clock w)"
    and "lo \<le> clock w"
  shows "\<forall>u r. find_result (rev rs) u = Some r \<longrightarrow>
            (\<exists>e. validationCache w' u = Some e \<and> result e = r
                 \<and> lo \<le> timestamp e \<and> timestamp e \<le> clock w')"
  using assms
proof (induction bs arbitrary: acc w)
  case Nil
  then show ?case by simp
next
  case (Cons b bs)
  let ?w1 = "fetched env (GraphQLCall b) w"
  from graphqlBatches_Cons_Inr [OF Cons.prems(1)] obtain brs where
    rec: "graphqlBatches env bs (acc @ brs) (cacheResults brs ?w1) = (Inr rs, w')"
    by blast
  have mono: "clock w \<le> clock ?w1"
    by (rule clock_fetched)
  with Cons.prems(3) have lo1: "lo \<le> clock ?w1"
    by simp
  have step: "\<forall>u r. find_result (rev (acc @ brs)) u = Some r \<longrightarrow>
            (\<exists>e. validationCache (cacheResults brs ?w1) u = Some e \<and> result e = r
                 \<and> lo \<le> timestamp e \<and> timestamp e \<le> clock (cacheResults brs ?w1))"
    by (rule written_step [OF Cons.prems(2) lo1 mono]) simp
  have lo2: "lo \<le> clock (cacheResults brs ?w1)"
    using lo1 by simp
  from Cons.IH [OF rec step lo2] show ?case .
qed

lemma graphqlBatches_fail:
  "graphqlBatches env bs acc w = (Inl err, w') \<Longrightarrow>
   (\<exists>k < length bs. netlog w' = netlog w @ map GraphQLCall (take (Suc k) bs)
        \<and> (\<exists>msg. graphql_api env (length (netlog w) + k) (bs ! k) = GqlThrows msg))
     \<and> rateLimitMap w' = rateLimitMap w
     \<and> clock w \<le> clock w'
     \<and> (cache_wf w \<longrightarrow> cache_wf w')"
proof (induction bs arbitrary: acc w)
  case Nil
  then show ?case by simp
next
  case (Cons b bs)
  let ?w1 = "fetched env (GraphQLCall b) w"
  show ?case
  proof (cases "graphql_api env (length (netlog w)) b")
    case (GqlThrows msg)
    with Cons.prems have "w' = ?w1"
      by (simp add: validateUsernamesGraphQL_def)
    with GqlThrows clock_fetched [of w env "GraphQLCall b"] cache_wf_frame [of ?w1 w]
    show ?thesis
      by (auto intro!: exI [of _ 0])
  next
    case (GqlBody data errors)
    let ?brs = "graphqlResults data errors b"
    let ?w2 = "cacheResults ?brs ?w1"
    from GqlBody Cons.prems have
      rec: "graphqlBatches env bs (acc @ ?brs) ?w2 = (Inl err, w')"
      by (simp add: validateUsernamesGraphQL_def)
    from Cons.IH [OF rec] obtain k where k: "k < length bs"
      "netlog w' = netlog ?w2 @ map GraphQLCall (take (Suc k) bs)"
      "\<exists>msg. graphql_api env (length (netlog ?w2) + k) (bs ! k) = GqlThrows msg"
      and rest: "rateLimitMap w' = rateLimitMap ?w2" "clock ?w2 \<le> clock w'"
        "cache_wf ?w2 \<longrightarrow> cache_wf w'"
      by blast
    have wf: "cache_wf w \<Longrightarrow> cache_wf ?w2"
      using cache_wf_cacheResults [of ?w1 ?brs] cache_wf_frame [of ?w1 w] by simp
    have "Suc k < length (b # bs)" using k(1) by simp
    moreover have "netlog w' = netlog w @ map GraphQLCall (take (Suc (Suc k)) (b # bs))"
      using k(2) by simp
    moreover have "\<exists>msg. graphql_api env (length (netlog w) + Suc k) ((b # bs) ! Suc k)
        = GqlThrows msg"
      using k(3) by simp
    ultimately have "\<exists>k < length (b # bs).
        netlog w' = netlog w @ map GraphQLCall (take (Suc k) (b # bs))
        \<and> (\<exists>msg. graphql_api env (length (netlog w) + k) ((b # bs) ! k) = GqlThrows msg)"
      by blast
    with rest wf clock_fetched [of w env "GraphQLCall b"] show ?thesis
      by simp
  qed
qed

text \<open>The three ways through the block that validates the misses.\<close>

lemma validateUncached_empty [simp]:
  "validateUncached env m token [] w = ([], False, w)"
  by (simp add: validateUncached_def)

lemma validateUncached_rest:
  assumes "misses \<noteq> []" and "\<not> (chooseGraphQL m token (length misses) \<and> truthy token)"
    and "validateUsernamesREST env misses w = (rs, w1)"
  shows "validateUncached env m token misses w =
           (rs, chooseGraphQL m token (length misses), cacheResults rs w1)"
  using assms by (auto simp: validateUncached_def Let_def)

lemma validateUncached_graphql_ok:
  assumes "misses \<noteq> []" and "chooseGraphQL m token (length misses)" and "truthy token"
    and "graphqlBatches env (slices 100 misses) [] w = (Inr rs, w1)"
  shows "validateUncached env m token misses w = (rs, True, w1)"
  using assms by (simp add: validateUncached_def Let_def)

lemma validateUncached_graphql_fail:
  assumes "misses \<noteq> []" and "chooseGraphQL m token (length misses)" and "truthy token"
    and "graphqlBatches env (slices 100 misses) [] w = (Inl err, w1)"
    and "validateUsernamesREST env misses w1 = (rs, w2)"
  shows "validateUncached env m token misses w = (rs, True, cacheResults rs w2)"
  using assms by (simp add: validateUncached_def Let_def)

lemma written_all:
  assumes "lo \<le> clock w"
  shows "\<forall>u r. find_result (rev rs) u = Some r \<longrightarrow>
            (\<exists>e. validationCache (cacheResults rs w) u = Some e \<and> result e = r
                 \<and> lo \<le> timestamp e \<and> timestamp e \<le> clock (cacheResults rs w))"
  using written_step [of "[]" w lo w rs] assms
  by (simp add: find_result_def)

lemma validateUncached_props:
  assumes run: "validateUncached env m token misses w = (rs, g, w')"
  shows "map username rs = misses"
    and "g = (misses \<noteq> [] \<and> chooseGraphQL m token (length misses))"
    and "rateLimitMap w' = rateLimitMap w"
    and "clock w \<le> clock w'"
    and "cache_wf w \<Longrightarrow> cache_wf w'"
    and "\<forall>u r. find_result (rev rs) u = Some r \<longrightarrow>
            (\<exists>e. validationCache w' u = Some e \<and> result e = r
                 \<and> clock w \<le> timestamp e \<and> timestamp e \<le> clock w')"
proof -
  let ?g = "chooseGraphQL m token (length misses)"
  have all: "map username rs = misses
    \<and> g = (misses \<noteq> [] \<and> ?g)
    \<and> rateLimitMap w' = rateLimitMap w
    \<and> clock w \<le> clock w'
    \<and> (cache_wf w \<longrightarrow> cache_wf w')
    \<and> (\<forall>u r. find_result (rev rs) u = Some r \<longrightarrow>
            (\<exists>e. validationCache w' u = Some e \<and> result e = r
                 \<and> clock w \<le> timestamp e \<and> timestamp e \<le> clock w'))"
  proof (cases "misses = []")
    case True
    with run show ?thesis by (auto simp: find_result_def)
  next
    case ne: False
    show ?thesis
    proof (cases "?g \<and> truthy token")
      case False
      obtain rs1 w1 where rest: "validateUsernamesREST env misses w = (rs1, w1)"
        by (cases "validateUsernamesREST env misses w")
      from validateUncached_rest [OF ne False rest] run
      have eq: "rs = rs1" "g = ?g" "w' = cacheResults rs1 w1"
        by simp_all
      note p = validateUsernamesREST_props [OF rest]
      have wf: "cache_wf w \<Longrightarrow> cache_wf (cacheResults rs1 w1)"
        using cache_wf_cacheResults [of w1 rs1] cache_wf_frame [OF p(3)] by simp
      from p wf written_all [OF p(5), of rs1] ne show ?thesis
        unfolding eq by simp
    next
      case True
      then have g: ?g and tok: "truthy token" by simp_all
      obtain r1 w1 where gq: "graphqlBatches env (slices 100 misses) [] w = (r1, w1)"
        by (cases "graphqlBatches env (slices 100 misses) [] w")
      show ?thesis
      proof (cases r1)
        case (Inr rs1)
        from validateUncached_graphql_ok [OF ne g tok gq [unfolded Inr]] run
        have eq: "rs = rs1" "g = True" "w' = w1"
          by simp_all
        from graphqlBatches_ok_frame [OF gq [unfolded Inr]]
          graphqlBatches_ok_wf [OF gq [unfolded Inr]]
          graphqlBatches_ok_written [OF gq [unfolded Inr], of "clock w"]
          ne g
        show ?thesis
          unfolding eq by (simp add: concat_slices find_result_def)
      next
        case (Inl err)
        obtain rs2 w2 where rest: "validateUsernamesREST env misses w1 = (rs2, w2)"
          by (cases "validateUsernamesREST env misses w1")
        from validateUncached_graphql_fail [OF ne g tok gq [unfolded Inl] rest] run
        have eq: "rs = rs2" "g = True" "w' = cacheResults rs2 w2"
          by simp_all
        note f = graphqlBatches_fail [OF gq [unfolded Inl]]
        note p = validateUsernamesREST_props [OF rest]
        have mono: "clock w \<le> clock w2"
          using f p(5) by simp
        have wf: "cache_wf w \<Longrightarrow> cache_wf (cacheResults rs2 w2)"
          using cache_wf_cacheResults [of w2 rs2] cache_wf_frame [OF p(3)] f by simp
        from p f wf written_all [OF mono, of rs2] ne g mono show ?thesis
          unfolding eq by simp
      qed
    qed
  qed
  from all show "map username rs = misses"
    and "g = (misses \<noteq> [] \<and> chooseGraphQL m token (length misses))"
    and "rateLimitMap w' = rateLimitMap w"
    and "clock w \<le> clock w'"
    and "cache_wf w \<Longrightarrow> cache_wf w'"
    and "\<forall>u r. find_result (rev rs) u = Some r \<longrightarrow>
            (\<exists>e. validationCache w' u = Some e \<and> result e = r
                 \<and> clock w \<le> timestamp e \<and> timestamp e \<le> clock w')"
    by simp_all
qed

subsection \<open>The handler\<close>

lemma checkRateLimit_snd:
  "validationCache (snd (checkRateLimit ip hasToken w)) = validationCache w"
  "netlog (snd (checkRateLimit ip hasToken w)) = netlog w"
  "clock (snd (checkRateLimit ip hasToken w)) = clock w"
  by (simp_all add: checkRateLimit_def Let_def split: option.splits)

lemma checkRateLimit_frame:
  assumes "checkRateLimit ip hasToken w = (rl, w1)"
  shows "validationCache w1 = validationCache w" and "netlog w1 = netlog w"
    and "clock w1 = clock w"
  using checkRateLimit_snd [of ip hasToken w] assms by simp_all

lemma POST_empty:
  "usernames req = [] \<Longrightarrow>
   POST env req w = (Status400 ''Invalid request: usernames array is required'', w)"
  by (simp add: POST_def)

lemma POST_too_many:
  "length (usernames req) > 5000 \<Longrightarrow>
   POST env req w = (Status400 ''Too many usernames. Maximum 5000 per request.'', w)"
  by (auto simp: POST_def)

lemma getCachedResult_cong:
  "validationCache w1 = validationCache w \<Longrightarrow> clock w1 = clock w \<Longrightarrow>
   getCachedResult w1 = getCachedResult w"
  by (rule ext) (simp add: getCachedResult_def split: option.splits)

lemma set_cached:
  "set (List.map_filter f xs) = {y. \<exists>x \<in> set xs. f x = Some y}"
  by (induction xs) (auto split: option.splits)

lemma getCachedResult_wf:
  "cache_wf w \<Longrightarrow> getCachedResult w u = Some r \<Longrightarrow> username r = u"
  by (auto simp: getCachedResult_def cache_wf_def split: option.splits if_splits)

lemma POST_unfold:
  assumes "usernames req \<noteq> []" and "length (usernames req) \<le> 5000"
    and rl: "checkRateLimit (client_ip req) (truthy (githubToken req)) w = (rl, w1)"
    and v: "validateUncached env (requested_method req) (githubToken req)
           (cacheMisses w (usernames req)) w1 = (rs, g, w2)"
  shows "POST env req w =
    (if \<not> allowed rl
     then (Status429 ''Rate limit exceeded. Please try again later.''
             (rl_resetTime rl) (remaining rl), w1)
     else (Status200
      \<lparr>results = mergeResults (List.map_filter (getCachedResult w) (usernames req)) rs
                   (usernames req),
       rateLimit = \<lparr>info_remaining = remaining rl, info_resetTime = rl_resetTime rl,
                    info_limit = (if truthy (githubToken req) then 5000 else 60)\<rparr>,
       cacheStats = \<lparr>cached = length (List.map_filter (getCachedResult w) (usernames req)),
                     validated = length rs, total = length (usernames req)\<rparr>,
       method_used = (if g then GraphQL else REST)\<rparr>, w2))"
proof -
  have look: "getCachedResult w1 = getCachedResult w"
    using checkRateLimit_frame [OF rl] by (intro getCachedResult_cong)
  have v': "validateUncached env (case method_param req of None \<Rightarrow> Auto | Some m' \<Rightarrow> m')
      (githubToken req) (filter (\<lambda>u. getCachedResult w u = None) (usernames req)) w1
      = (rs, g, w2)"
    using v by (simp add: requested_method_def cacheMisses_def)
  show ?thesis
    using assms(1,2) by (simp add: POST_def Let_def rl look v')
qed

lemma POST_200:
  assumes "POST env req w = (Status200 body, w')"
  obtains rl w1 rs g where
    "usernames req \<noteq> []" and "length (usernames req) \<le> 5000"
    and "checkRateLimit (client_ip req) (truthy (githubToken req)) w = (rl, w1)"
    and "allowed rl"
    and "validateUncached env (requested_method req) (githubToken req)
           (cacheMisses w (usernames req)) w1 = (rs, g, w')"
    and "body =
      \<lparr>results = mergeResults (List.map_filter (getCachedResult w) (usernames req)) rs
                   (usernames req),
       rateLimit = \<lparr>info_remaining = remaining rl, info_resetTime = rl_resetTime rl,
                    info_limit = (if truthy (githubToken req) then 5000 else 60)\<rparr>,
       cacheStats = \<lparr>cached = length (List.map_filter (getCachedResult w) (usernames req)),
                     validated = length rs, total = length (usernames req)\<rparr>,
       method_used = (if g then GraphQL else REST)\<rparr>"
proof -
  have ne: "usernames req \<noteq> []"
    using assms POST_empty [of req env w] by auto
  have le: "length (usernames req) \<le> 5000"
    using assms POST_too_many [of req env w] by (cases "length (usernames req) > 5000") auto
  obtain rl w1 where rl: "checkRateLimit (client_ip req) (truthy (githubToken req)) w = (rl, w1)"
    by (cases "checkRateLimit (client_ip req) (truthy (githubToken req)) w")
  obtain rs g w2 where v: "validateUncached env (requested_method req) (githubToken req)
           (cacheMisses w (usernames req)) w1 = (rs, g, w2)"
    by (cases "validateUncached env (requested_method req) (githubToken req)
           (cacheMisses w (usernames req)) w1")
  note u = POST_unfold [OF ne le rl v]
  have al: "allowed rl"
    using assms u by (cases "allowed rl") simp_all
  from assms u al have "w' = w2" and "body =
      \<lparr>results = mergeResults (List.map_filter (getCachedResult w) (usernames req)) rs
                   (usernames req),
       rateLimit = \<lparr>info_remaining = remaining rl, info_resetTime = rl_resetTime rl,
                    info_limit = (if truthy (githubToken req) then 5000 else 60)\<rparr>,
       cacheStats = \<lparr>cached = length (List.map_filter (getCachedResult w) (usernames req)),
                     validated = length rs, total = length (usernames req)\<rparr>,
       method_used = (if g then GraphQL else REST)\<rparr>"
    by simp_all
  with ne le rl al v that show thesis
    by blast
qed

lemma POST_accepts:
  assumes "usernames req \<noteq> []" and "length (usernames req) \<le> 5000"
    and "allowed (fst (checkRateLimit (client_ip req) (truthy (githubToken req)) w))"
  shows "\<exists>body w'. POST env req w = (Status200 body, w')"
proof -
  obtain rl w1 where rl: "checkRateLimit (client_ip req) (truthy (githubToken req)) w = (rl, w1)"
    by (cases "checkRateLimit (client_ip req) (truthy (githubToken req)) w")
  obtain rs g w2 where v: "validateUncached env (requested_method req) (githubToken req)
           (cacheMisses w (usernames req)) w1 = (rs, g, w2)"
    by (cases "validateUncached env (requested_method req) (githubToken req)
           (cacheMisses w (usernames req)) w1")
  show ?thesis
    using POST_unfold [OF assms(1,2) rl v] assms(3) rl by simp
qed

lemma merge_covers:
  assumes wf: "cache_wf w" and names: "map username rs = cacheMisses w us"
  shows "map (map_option username)
           (mergeResults (List.map_filter (getCachedResult w) us) rs us) = map Some us"
proof -
  let ?cached = "List.map_filter (getCachedResult w) us"
  have one: "map_option username
       (case find_result ?cached u of Some c \<Rightarrow> Some c | None \<Rightarrow> find_result rs u) = Some u"
    if u: "u \<in> set us" for u
  proof (cases "getCachedResult w u")
    case (Some c)
    with u have "c \<in> set ?cached"
      by (auto simp: set_cached)
    moreover have "username c = u"
      using wf Some by (rule getCachedResult_wf)
    ultimately have "u \<in> username ` set ?cached"
      by blast
    then obtain c' where "find_result ?cached u = Some c'"
      using find_result_None [of ?cached u] by (cases "find_result ?cached u") auto
    then show ?thesis
      using find_result_Some [of ?cached u c'] by simp
  next
    case None
    have "u \<notin> username ` set ?cached"
    proof
      assume "u \<in> username ` set ?cached"
      then obtain c u' where "getCachedResult w u' = Some c" "username c = u"
        by (auto simp: set_cached)
      with getCachedResult_wf [OF wf, of u' c] None show False
        by simp
    qed
    then have nc: "find_result ?cached u = None"
      by (simp add: find_result_None)
    have "u \<in> set (map username rs)"
      using u None unfolding names by (simp add: cacheMisses_def)
    then have "u \<in> username ` set rs"
      by simp
    then obtain r where "find_result rs u = Some r"
      using find_result_None [of rs u] by (cases "find_result rs u") auto
    with nc show ?thesis
      using find_result_Some [of rs u r] by simp
  qed
  show ?thesis
    unfolding mergeResults_def using one by simp
qed

text \<open>
  C3. A request that is answered with results gets one result per submitted handle, at
  the position of the handle and carrying that handle, whatever the remote answers;
  in particular when a batch query throws and the single-resource path serves the misses.
  The cache is assumed to hold every entry under the handle of its result, which the
  handler maintains.
\<close>

theorem results_one_per_handle_in_order:
  assumes "cache_wf w" and "POST env req w = (Status200 body, w')"
  shows "length (results body) = length (usernames req)
     \<and> map (map_option username) (results body) = map Some (usernames req)
     \<and> cache_wf w'"
proof -
  from assms(2) obtain rl w1 rs g where
    rl: "checkRateLimit (client_ip req) (truthy (githubToken req)) w = (rl, w1)"
    and v: "validateUncached env (requested_method req) (githubToken req)
           (cacheMisses w (usernames req)) w1 = (rs, g, w')"
    and body: "results body =
       mergeResults (List.map_filter (getCachedResult w) (usernames req)) rs (usernames req)"
    by (rule POST_200) simp
  have names: "map username rs = cacheMisses w (usernames req)"
    using v by (rule validateUncached_props(1))
  have "cache_wf w1"
    using assms(1) cache_wf_frame [OF checkRateLimit_frame(1) [OF rl]] by simp
  then have wf': "cache_wf w'"
    by (rule validateUncached_props(5) [OF v])
  have "map (map_option username) (results body) = map Some (usernames req)"
    unfolding body using assms(1) names by (rule merge_covers)
  moreover have "length (results body) = length (usernames req)"
    unfolding body by (simp add: mergeResults_def)
  ultimately show ?thesis
    using wf' by simp
qed

lemma cache_wf_world_torvalds: "cache_wf world_torvalds"
  by (simp add: cache_wf_def world_torvalds_def torvalds_result_def)

lemma allowed_fresh_ip:
  "rateLimitMap w ip = None \<Longrightarrow> allowed (fst (checkRateLimit ip hasToken w))"
  by (simp add: checkRateLimit_def Let_def)

theorem results_one_per_handle_in_order_witness:
  "cache_wf world_torvalds
   \<and> (\<exists>body w'. POST remote_down req_three world_torvalds = (Status200 body, w')
        \<and> length (results body) = 3
        \<and> map (map_option username) (results body)
            = [Some ''torvalds'', Some ''octocat'', Some ''ghost'']
        \<and> cache_wf w')"
proof -
  have "allowed (fst (checkRateLimit (client_ip req_three) (truthy (githubToken req_three))
           world_torvalds))"
    by (rule allowed_fresh_ip) (simp add: world_torvalds_def)
  then obtain body w' where run: "POST remote_down req_three world_torvalds = (Status200 body, w')"
    using POST_accepts [of req_three world_torvalds remote_down]
    by (auto simp: req_three_def)
  from results_one_per_handle_in_order [OF cache_wf_world_torvalds run] run
    cache_wf_world_torvalds
  show ?thesis
    by (simp add: req_three_def)
qed

lemma slices_Cons: "xs \<noteq> [] \<Longrightarrow> 0 < n \<Longrightarrow> slices n xs = take n xs # slices n (drop n xs)"
  by (subst slices.simps) simp

lemma graphqlBatches_first_throw:
  "graphqlBatches env bs acc w = (Inl err, w') \<Longrightarrow>
   \<exists>k < length bs. netlog w' = netlog w @ map GraphQLCall (take (Suc k) bs)
        \<and> (\<exists>msg. graphql_api env (length (netlog w) + k) (bs ! k) = GqlThrows msg)
        \<and> (\<forall>j < k. \<forall>msg. graphql_api env (length (netlog w) + j) (bs ! j) \<noteq> GqlThrows msg)"
proof (induction bs arbitrary: acc w)
  case Nil
  then show ?case by simp
next
  case (Cons b bs)
  let ?w1 = "fetched env (GraphQLCall b) w"
  show ?case
  proof (cases "graphql_api env (length (netlog w)) b")
    case (GqlThrows msg)
    with Cons.prems have "w' = ?w1"
      by (simp add: validateUsernamesGraphQL_def)
    with GqlThrows show ?thesis
      by (auto intro!: exI [of _ 0])
  next
    case (GqlBody data errors)
    let ?brs = "graphqlResults data errors b"
    let ?w2 = "cacheResults ?brs ?w1"
    from GqlBody Cons.prems have
      rec: "graphqlBatches env bs (acc @ ?brs) ?w2 = (Inl err, w')"
      by (simp add: validateUsernamesGraphQL_def)
    from Cons.IH [OF rec] obtain k where k: "k < length bs"
      "netlog w' = netlog ?w2 @ map GraphQLCall (take (Suc k) bs)"
      "\<exists>msg. graphql_api env (length (netlog ?w2) + k) (bs ! k) = GqlThrows msg"
      "\<forall>j < k. \<forall>msg. graphql_api env (length (netlog ?w2) + j) (bs ! j) \<noteq> GqlThrows msg"
      by blast
    have "Suc k < length (b # bs)" using k(1) by simp
    moreover have "netlog w' = netlog w @ map GraphQLCall (take (Suc (Suc k)) (b # bs))"
      using k(2) by simp
    moreover have "\<exists>msg. graphql_api env (length (netlog w) + Suc k) ((b # bs) ! Suc k)
        = GqlThrows msg"
      using k(3) by simp
    moreover have "\<forall>j < Suc k. \<forall>msg.
        graphql_api env (length (netlog w) + j) ((b # bs) ! j) \<noteq> GqlThrows msg"
    proof (intro allI impI)
      fix j msg
      assume "j < Suc k"
      show "graphql_api env (length (netlog w) + j) ((b # bs) ! j) \<noteq> GqlThrows msg"
      proof (cases j)
        case 0
        with GqlBody show ?thesis by simp
      next
        case (Suc i)
        with \<open>j < Suc k\<close> k(4) show ?thesis by simp
      qed
    qed
    ultimately show ?thesis
      by blast
  qed
qed

text \<open>The remote calls of the block that validates the misses, path by path.\<close>

lemma validateUncached_netlog_rest:
  assumes "validateUncached env m token misses w = (rs, g, w')"
    and "\<not> (chooseGraphQL m token (length misses) \<and> truthy token)"
  shows "netlog w' = netlog w @ map RestUserCall misses"
proof (cases "misses = []")
  case True
  with assms(1) show ?thesis by simp
next
  case False
  obtain rs1 w1 where rest: "validateUsernamesREST env misses w = (rs1, w1)"
    by (cases "validateUsernamesREST env misses w")
  from validateUncached_rest [OF False assms(2) rest] assms(1)
  have "w' = cacheResults rs1 w1" by simp
  with validateUsernamesREST_props(2) [OF rest] show ?thesis
    by simp
qed

lemma graphqlBatches_ok_no_throw:
  "graphqlBatches env bs acc w = (Inr rs, w') \<Longrightarrow> k < length bs \<Longrightarrow>
   graphql_api env (length (netlog w) + k) (bs ! k) \<noteq> GqlThrows msg"
proof (induction bs arbitrary: acc w k)
  case Nil
  then show ?case by simp
next
  case (Cons b bs)
  let ?w1 = "fetched env (GraphQLCall b) w"
  from graphqlBatches_Cons_Inr [OF Cons.prems(1)] obtain brs where
    one: "validateUsernamesGraphQL env b w = (Inr brs, ?w1)"
    and rec: "graphqlBatches env bs (acc @ brs) (cacheResults brs ?w1) = (Inr rs, w')"
    by blast
  show ?case
  proof (cases k)
    case 0
    with one show ?thesis
      by (auto simp: validateUsernamesGraphQL_def split: gql_response.splits)
  next
    case (Suc i)
    with Cons.prems(2) have "i < length bs" by simp
    from Cons.IH [OF rec this] Suc show ?thesis
      by simp
  qed
qed

lemma validateUncached_netlog_graphql:
  assumes run: "validateUncached env m token misses w = (rs, g, w')"
    and ne: "misses \<noteq> []" and g: "chooseGraphQL m token (length misses)"
    and tok: "truthy token"
  shows "((\<forall>i < length (slices 100 misses). \<forall>msg.
               graphql_api env (length (netlog w) + i) (slices 100 misses ! i) \<noteq> GqlThrows msg)
            \<and> netlog w' = netlog w @ map GraphQLCall (slices 100 misses))
       \<or> (\<exists>k < length (slices 100 misses).
            (\<exists>msg. graphql_api env (length (netlog w) + k) (slices 100 misses ! k)
                     = GqlThrows msg)
            \<and> (\<forall>j < k. \<forall>msg. graphql_api env (length (netlog w) + j) (slices 100 misses ! j)
                     \<noteq> GqlThrows msg)
            \<and> netlog w' = netlog w @ map GraphQLCall (take (Suc k) (slices 100 misses))
                             @ map RestUserCall misses)"
proof -
  obtain r1 w1 where gq: "graphqlBatches env (slices 100 misses) [] w = (r1, w1)"
    by (cases "graphqlBatches env (slices 100 misses) [] w")
  show ?thesis
  proof (cases r1)
    case (Inr rs1)
    from validateUncached_graphql_ok [OF ne g tok gq [unfolded Inr]] run
    have "w' = w1" by simp
    with graphqlBatches_ok_frame [OF gq [unfolded Inr]]
    have "netlog w' = netlog w @ map GraphQLCall (slices 100 misses)"
      by simp
    moreover have "\<forall>i < length (slices 100 misses). \<forall>msg.
        graphql_api env (length (netlog w) + i) (slices 100 misses ! i) \<noteq> GqlThrows msg"
      using graphqlBatches_ok_no_throw [OF gq [unfolded Inr]] by blast
    ultimately show ?thesis
      by blast
  next
    case (Inl err)
    obtain rs2 w2 where rest: "validateUsernamesREST env misses w1 = (rs2, w2)"
      by (cases "validateUsernamesREST env misses w1")
    from validateUncached_graphql_fail [OF ne g tok gq [unfolded Inl] rest] run
    have w': "w' = cacheResults rs2 w2" by simp
    from graphqlBatches_first_throw [OF gq [unfolded Inl]] obtain k where
      k: "k < length (slices 100 misses)"
      "netlog w1 = netlog w @ map GraphQLCall (take (Suc k) (slices 100 misses))"
      "\<exists>msg. graphql_api env (length (netlog w) + k) (slices 100 misses ! k) = GqlThrows msg"
      "\<forall>j < k. \<forall>msg. graphql_api env (length (netlog w) + j) (slices 100 misses ! j)
          \<noteq> GqlThrows msg"
      by blast
    have "netlog w' = netlog w @ map GraphQLCall (take (Suc k) (slices 100 misses))
                             @ map RestUserCall misses"
      unfolding w' using validateUsernamesREST_props(2) [OF rest] k(2) by simp
    with k show ?thesis
      by blast
  qed
qed

lemma validateUncached_netlog_graphql_first:
  assumes "validateUncached env m token misses w = (rs, g, w')"
    and "misses \<noteq> []" and "chooseGraphQL m token (length misses)" and "truthy token"
  shows "\<exists>calls. netlog w' = netlog w @ GraphQLCall (take 100 misses) # calls"
proof -
  have sl: "slices 100 misses = take 100 misses # slices 100 (drop 100 misses)"
    using assms(2) by (simp add: slices_Cons)
  from validateUncached_netlog_graphql [OF assms] show ?thesis
    unfolding sl by auto
qed

text \<open>
  C4, as the handler has it. For a request that is answered with results and has cache
  misses, the strategy flag \<open>useGraphQL\<close>, reported as \<open>method\<close> in the response, is
  \<open>graphql\<close> exactly when the requested method is \<open>graphql\<close>, or it is \<open>auto\<close> (the
  default), a token is present and there are at least 10 misses; otherwise it is \<open>rest\<close>.
  The batch path is taken exactly when, in addition, a token is present: then the first
  remote call is the batch query for the first 100 misses, and the remote calls of the
  request are one batch query per chunk of 100 misses if none of them throws, and
  otherwise the batch queries up to the first that throws, followed by one
  single-resource call per miss. In every other case, the one of \<open>graphql\<close> requested
  without a token included, the remote calls of the request are one single-resource
  call per miss.
\<close>

theorem strategy_choice:
  assumes "POST env req w = (Status200 body, w')"
    and "cacheMisses w (usernames req) \<noteq> []"
  shows "method_used body =
           (if requested_method req = GraphQL
               \<or> (requested_method req = Auto \<and> truthy (githubToken req)
                   \<and> 10 \<le> length (cacheMisses w (usernames req)))
            then GraphQL else REST)
     \<and> (if truthy (githubToken req)
            \<and> (requested_method req = GraphQL
                \<or> (requested_method req = Auto
                    \<and> 10 \<le> length (cacheMisses w (usernames req))))
         then (\<exists>calls. netlog w' =
                 netlog w @ GraphQLCall (take 100 (cacheMisses w (usernames req))) # calls)
              \<and> (((\<forall>i < length (slices 100 (cacheMisses w (usernames req))). \<forall>msg.
                      graphql_api env (length (netlog w) + i)
                        (slices 100 (cacheMisses w (usernames req)) ! i) \<noteq> GqlThrows msg)
                   \<and> netlog w' = netlog w
                         @ map GraphQLCall (slices 100 (cacheMisses w (usernames req))))
                 \<or> (\<exists>k < length (slices 100 (cacheMisses w (usernames req))).
                      (\<exists>msg. graphql_api env (length (netlog w) + k)
                               (slices 100 (cacheMisses w (usernames req)) ! k) = GqlThrows msg)
                      \<and> (\<forall>j < k. \<forall>msg. graphql_api env (length (netlog w) + j)
                               (slices 100 (cacheMisses w (usernames req)) ! j) \<noteq> GqlThrows msg)
                      \<and> netlog w' = netlog w
                            @ map GraphQLCall
                                (take (Suc k) (slices 100 (cacheMisses w (usernames req))))
                            @ map RestUserCall (cacheMisses w (usernames req))))
         else netlog w' = netlog w @ map RestUserCall (cacheMisses w (usernames req)))"
proof -
  let ?misses = "cacheMisses w (usernames req)"
  let ?choice = "chooseGraphQL (requested_method req) (githubToken req) (length ?misses)"
  from assms(1) obtain rl w1 rs g where
    rl: "checkRateLimit (client_ip req) (truthy (githubToken req)) w = (rl, w1)"
    and v: "validateUncached env (requested_method req) (githubToken req) ?misses w1
              = (rs, g, w')"
    and m: "method_used body = (if g then GraphQL else REST)"
    by (rule POST_200) simp
  have log: "netlog w1 = netlog w"
    using rl by (rule checkRateLimit_frame(2))
  have g: "g = ?choice"
    using validateUncached_props(2) [OF v] assms(2) by simp
  have c1: "method_used body =
           (if requested_method req = GraphQL
               \<or> (requested_method req = Auto \<and> truthy (githubToken req)
                   \<and> 10 \<le> length ?misses)
            then GraphQL else REST)"
    using m g by (simp add: chooseGraphQL_def)
  have path: "(truthy (githubToken req)
            \<and> (requested_method req = GraphQL
                \<or> (requested_method req = Auto \<and> 10 \<le> length ?misses)))
        \<longleftrightarrow> (?choice \<and> truthy (githubToken req))"
    by (auto simp: chooseGraphQL_def)
  have rest: "netlog w' = netlog w @ map RestUserCall ?misses"
    if "\<not> (?choice \<and> truthy (githubToken req))"
    using validateUncached_netlog_rest [OF v that] log by simp
  have batch: "\<exists>calls. netlog w' = netlog w @ GraphQLCall (take 100 ?misses) # calls"
    if "?choice \<and> truthy (githubToken req)"
    using validateUncached_netlog_graphql_first [OF v assms(2)] that log by simp
  let ?bs = "slices 100 ?misses"
  have exact: "((\<forall>i < length ?bs. \<forall>msg.
           graphql_api env (length (netlog w) + i) (?bs ! i) \<noteq> GqlThrows msg)
         \<and> netlog w' = netlog w @ map GraphQLCall ?bs)
       \<or> (\<exists>k < length ?bs.
            (\<exists>msg. graphql_api env (length (netlog w) + k) (?bs ! k) = GqlThrows msg)
            \<and> (\<forall>j < k. \<forall>msg. graphql_api env (length (netlog w) + j) (?bs ! j)
                     \<noteq> GqlThrows msg)
            \<and> netlog w' = netlog w @ map GraphQLCall (take (Suc k) ?bs)
                             @ map RestUserCall ?misses)"
    if "?choice \<and> truthy (githubToken req)"
    using validateUncached_netlog_graphql [OF v assms(2)] that unfolding log by blast
  let ?p = "truthy (githubToken req)
            \<and> (requested_method req = GraphQL
                \<or> (requested_method req = Auto \<and> 10 \<le> length ?misses))"
  have c2: "if ?p
         then (\<exists>calls. netlog w' = netlog w @ GraphQLCall (take 100 ?misses) # calls)
              \<and> (((\<forall>i < length ?bs. \<forall>msg.
                      graphql_api env (length (netlog w) + i) (?bs ! i) \<noteq> GqlThrows msg)
                   \<and> netlog w' = netlog w @ map GraphQLCall ?bs)
                 \<or> (\<exists>k < length ?bs.
                      (\<exists>msg. graphql_api env (length (netlog w) + k) (?bs ! k) = GqlThrows msg)
                      \<and> (\<forall>j < k. \<forall>msg. graphql_api env (length (netlog w) + j) (?bs ! j)
                               \<noteq> GqlThrows msg)
                      \<and> netlog w' = netlog w @ map GraphQLCall (take (Suc k) ?bs)
                                       @ map RestUserCall ?misses))
         else netlog w' = netlog w @ map RestUserCall ?misses"
  proof (cases ?p)
    case True
    with path have "?choice \<and> truthy (githubToken req)" by blast
    from batch [OF this] exact [OF this] True show ?thesis by simp
  next
    case False
    with path have "\<not> (?choice \<and> truthy (githubToken req))" by blast
    from rest [OF this] False show ?thesis by auto
  qed
  from c1 c2 show ?thesis
    by (rule conjI)
qed

lemma cacheMisses_empty_cache:
  "validationCache w = Map.empty \<Longrightarrow> cacheMisses w us = us"
  by (simp add: cacheMisses_def getCachedResult_def)

lemma length_handles [simp]: "length (handles n) = n"
  by (simp add: handles_def)

lemma handles_Nil [simp]: "handles n = [] \<longleftrightarrow> n = 0"
  by (simp add: handles_def)

theorem strategy_choice_witness:
  "(\<exists>body w'. POST remote1 (req_auto 15) world0 = (Status200 body, w')
       \<and> cacheMisses world0 (usernames (req_auto 15)) \<noteq> []
       \<and> method_used body = GraphQL
       \<and> netlog w' = [GraphQLCall (handles 15)])
   \<and> (\<exists>body w'. POST remote1 (req_auto 5) world0 = (Status200 body, w')
       \<and> cacheMisses world0 (usernames (req_auto 5)) \<noteq> []
       \<and> method_used body = REST
       \<and> netlog w' = map RestUserCall (handles 5))
   \<and> (\<exists>body w'. POST remote1 req_graphql_no_token world0 = (Status200 body, w')
       \<and> cacheMisses world0 (usernames req_graphql_no_token) \<noteq> []
       \<and> method_used body = GraphQL
       \<and> netlog w' = [RestUserCall ''octocat'', RestUserCall ''ghost''])"
proof -
  have misses: "cacheMisses world0 (usernames (req_auto n)) = handles n" for n
    by (simp add: cacheMisses_empty_cache world0_def req_auto_def)
  have misses': "cacheMisses world0 (usernames req_graphql_no_token) = [''octocat'', ''ghost'']"
    by (simp add: cacheMisses_empty_cache world0_def req_graphql_no_token_def)
  have ne: "handles 15 \<noteq> []" "handles 5 \<noteq> []"
    by simp_all
  have ok: "\<exists>body w'. POST remote1 (req_auto n) world0 = (Status200 body, w')"
    if "0 < n" "n \<le> 5000" for n
  proof (rule POST_accepts)
    show "usernames (req_auto n) \<noteq> []"
      using that by (simp add: req_auto_def)
    show "length (usernames (req_auto n)) \<le> 5000"
      using that by (simp add: req_auto_def)
    show "allowed (fst (checkRateLimit (client_ip (req_auto n))
        (truthy (githubToken (req_auto n))) world0))"
      by (rule allowed_fresh_ip) (simp add: world0_def)
  qed
  have ok': "\<exists>body w'. POST remote1 req_graphql_no_token world0 = (Status200 body, w')"
  proof (rule POST_accepts)
    show "allowed (fst (checkRateLimit (client_ip req_graphql_no_token)
        (truthy (githubToken req_graphql_no_token)) world0))"
      by (rule allowed_fresh_ip) (simp add: world0_def)
  qed (simp_all add: req_graphql_no_token_def)
  have tok: "truthy (githubToken (req_auto n))" and m: "requested_method (req_auto n) = Auto" for n
    by (simp_all add: req_auto_def truthy_def requested_method_def)
  have tok': "\<not> truthy (githubToken req_graphql_no_token)"
    and m': "requested_method req_graphql_no_token = GraphQL"
    by (simp_all add: req_graphql_no_token_def truthy_def requested_method_def)
  from ok [of 15] obtain b15 w15 where
    r15: "POST remote1 (req_auto 15) world0 = (Status200 b15, w15)"
    by auto
  from ok [of 5] obtain b5 w5 where
    r5: "POST remote1 (req_auto 5) world0 = (Status200 b5, w5)"
    by auto
  from ok' obtain b2 w2 where
    r2: "POST remote1 req_graphql_no_token world0 = (Status200 b2, w2)"
    by auto
  have log0: "netlog world0 = []"
    by (simp add: world0_def)
  have sl: "slices 100 (handles 15) = [handles 15]"
    by (simp add: slices.simps [of 100 "handles 15"] slices.simps [of 100 "[]"])
  have nothrow: "graphql_api remote1 n us \<noteq> GqlThrows msg" for n us msg
    by (simp add: remote1_def)
  have "method_used b15 = GraphQL \<and> netlog w15 = [GraphQLCall (handles 15)]"
    using strategy_choice [OF r15] ne(1) tok [of 15] m [of 15] nothrow
    by (simp add: misses log0 sl)
  moreover have "method_used b5 = REST \<and> netlog w5 = map RestUserCall (handles 5)"
    using strategy_choice [OF r5] ne(2) tok [of 5] m [of 5]
    by (simp add: misses log0)
  moreover have "method_used b2 = GraphQL
      \<and> netlog w2 = [RestUserCall ''octocat'', RestUserCall ''ghost'']"
    using strategy_choice [OF r2] tok' m'
    by (simp add: misses' log0)
  ultimately show ?thesis
    using r15 r5 r2 ne by (simp add: misses misses')
qed

text \<open>
  C4 as stated fails where \<open>graphql\<close> is requested without a token: the response reports
  \<open>graphql\<close>, and no batch query is made; the two misses are served by one
  single-resource call each.
\<close>

theorem graphql_without_token_takes_rest_path:
  "requested_method req_graphql_no_token = GraphQL
   \<and> cacheMisses world0 (usernames req_graphql_no_token) = [''octocat'', ''ghost'']
   \<and> ok_method (POST remote1 req_graphql_no_token world0) = Some GraphQL
   \<and> netlog (snd (POST remote1 req_graphql_no_token world0))
        = [RestUserCall ''octocat'', RestUserCall ''ghost'']"
  by (simp add: ok_method_def requested_method_def POST_def Let_def checkRateLimit_def
      client_ip_def truthy_def getCachedResult_def validateUncached_def chooseGraphQL_def
      slices.simps validateUsernamesREST_def fetched_def delay_def cacheMisses_def
      req_graphql_no_token_def world0_def remote1_def)

text \<open>
  C10. Every handle of an answered request that was a cache miss has, after the request,
  a cache entry under its name, stamped during the request, whatever the status of the
  result, \<open>error\<close> included: a lookup at any time less than five minutes after the stamp
  returns the stored result. When the request names no handle twice, the stored result
  is the one the response carries for the handle. The cache is taken to hold every entry
  under the handle of its result, as the handler leaves it.
\<close>

theorem produced_results_are_cached:
  assumes "POST env req w = (Status200 body, w')"
    and "i < length (usernames req)"
    and "getCachedResult w (usernames req ! i) = None"
    and wf: "cache_wf w"
  shows "\<exists>e. validationCache w' (usernames req ! i) = Some e
           \<and> username (result e) = usernames req ! i
           \<and> clock w \<le> timestamp e \<and> timestamp e \<le> clock w'
           \<and> (\<forall>t. t - timestamp e < CACHE_DURATION \<longrightarrow>
                  getCachedResult (w'\<lparr>clock := t\<rparr>) (usernames req ! i) = Some (result e))
           \<and> (distinct (usernames req) \<longrightarrow> results body ! i = Some (result e))"
proof -
  let ?us = "usernames req"
  let ?u = "?us ! i"
  let ?misses = "cacheMisses w ?us"
  let ?cached = "List.map_filter (getCachedResult w) ?us"
  from assms(1) obtain rl w1 rs g where
    rl: "checkRateLimit (client_ip req) (truthy (githubToken req)) w = (rl, w1)"
    and v: "validateUncached env (requested_method req) (githubToken req) ?misses w1
              = (rs, g, w')"
    and body: "results body = mergeResults ?cached rs ?us"
    by (rule POST_200) simp
  have clk: "clock w1 = clock w"
    using rl by (rule checkRateLimit_frame(3))
  have names: "map username rs = ?misses"
    using v by (rule validateUncached_props(1))
  have miss: "?u \<in> set ?misses"
    using assms(2,3) by (simp add: cacheMisses_def)
  then have "?u \<in> username ` set (rev rs)"
    unfolding names [symmetric] by simp
  then obtain r where last: "find_result (rev rs) ?u = Some r"
    using find_result_None [of "rev rs" ?u] by (cases "find_result (rev rs) ?u") auto
  with validateUncached_props(6) [OF v] obtain e where
    e: "validationCache w' ?u = Some e" "result e = r"
    "clock w1 \<le> timestamp e" "timestamp e \<le> clock w'"
    by blast
  have u: "username (result e) = ?u"
    using find_result_Some [OF last] e(2) by simp
  have fresh: "\<forall>t. t - timestamp e < CACHE_DURATION \<longrightarrow>
      getCachedResult (w'\<lparr>clock := t\<rparr>) ?u = Some (result e)"
    using e(1) by (simp add: getCachedResult_def)
  have same: "results body ! i = Some (result e)" if d: "distinct ?us"
  proof -
    have "distinct (map username rs)"
      unfolding names cacheMisses_def using d by simp
    then have dr: "distinct (map username (rev rs))"
      by (simp add: rev_map [symmetric])
    have "r \<in> set rs" using find_result_Some [OF last] by simp
    moreover have "username r = ?u" using find_result_Some [OF last] by simp
    ultimately have first: "find_result rs ?u = Some r"
      using \<open>distinct (map username rs)\<close>
      by (induction rs) (auto simp: find_result_def image_iff)
    have "find_result ?cached ?u = None"
    proof (cases "find_result ?cached ?u")
      case (Some c)
      from find_result_Some [OF Some] obtain u' where
        c: "getCachedResult w u' = Some c" "username c = ?u"
        by (auto simp: set_cached)
      from getCachedResult_wf [OF wf c(1)] c assms(3) show ?thesis
        by simp
    qed simp
    with first e(2) show ?thesis
      unfolding body using assms(2) by (simp add: mergeResults_def)
  qed
  from e(1) u e(3,4) fresh same show ?thesis
    unfolding clk by blast
qed



lemmas eval_defs = POST_def Let_def checkRateLimit_def client_ip_def truthy_def
  getCachedResult_def CACHE_DURATION_def validateUncached_def chooseGraphQL_def
  slices.simps validateUsernamesGraphQL_def validateUsernamesREST_def fetched_def delay_def
  restResult_def setCachedResult_def mergeResults_def find_result_def cacheMisses_def

lemma run_down:
  "ok_results (POST remote_down req_three world_torvalds) =
     [Some torvalds_result,
      Some \<lparr>username = ''octocat'', status = Valid, error = None, profileData = Some octocat_profile\<rparr>,
      Some (error_result ''ghost'' ''fetch failed'')]"
  by (simp add: ok_results_def eval_defs req_three_def world_torvalds_def remote_down_def
      torvalds_result_def)

lemma run_down_log:
  "netlog (snd (POST remote_down req_three world_torvalds)) =
     [GraphQLCall [''octocat'', ''ghost''], RestUserCall ''octocat'', RestUserCall ''ghost'']"
  by (simp add: eval_defs req_three_def world_torvalds_def remote_down_def
      torvalds_result_def)


lemma accepted_down:
  "\<exists>body w'. POST remote_down req_three world_torvalds = (Status200 body, w')"
proof (rule POST_accepts)
  show "allowed (fst (checkRateLimit (client_ip req_three) (truthy (githubToken req_three))
           world_torvalds))"
    by (rule allowed_fresh_ip) (simp add: world_torvalds_def)
qed (simp_all add: req_three_def)

theorem produced_results_are_cached_witness:
  "\<exists>body w' e. POST remote_down req_three world_torvalds = (Status200 body, w')
     \<and> usernames req_three ! 2 = ''ghost''
     \<and> getCachedResult world_torvalds ''ghost'' = None
     \<and> cache_wf world_torvalds \<and> distinct (usernames req_three)
     \<and> validationCache w' ''ghost'' = Some e
     \<and> result e = error_result ''ghost'' ''fetch failed''
     \<and> status (result e) = Error
     \<and> results body ! 2 = Some (result e)
     \<and> getCachedResult (w'\<lparr>clock := timestamp e + 4 * 60 * 1000\<rparr>) ''ghost'' = Some (result e)"
proof -
  from accepted_down obtain body w' where
    run: "POST remote_down req_three world_torvalds = (Status200 body, w')"
    by blast
  have u: "usernames req_three ! 2 = ''ghost''" and d: "distinct (usernames req_three)"
    and len: "2 < length (usernames req_three)"
    by (simp_all add: req_three_def)
  have miss: "getCachedResult world_torvalds ''ghost'' = None"
    by (simp add: getCachedResult_def world_torvalds_def)
  from produced_results_are_cached [OF run len _ cache_wf_world_torvalds] miss u d
  obtain e where e: "validationCache w' ''ghost'' = Some e"
    "\<forall>t. t - timestamp e < CACHE_DURATION \<longrightarrow>
       getCachedResult (w'\<lparr>clock := t\<rparr>) ''ghost'' = Some (result e)"
    "results body ! 2 = Some (result e)"
    by auto
  have "ok_results (POST remote_down req_three world_torvalds) ! 2
      = Some (error_result ''ghost'' ''fetch failed'')"
    by (simp add: run_down)
  with run e(3) have r: "result e = error_result ''ghost'' ''fetch failed''"
    by (simp add: ok_results_def)
  have "timestamp e + 4 * 60 * 1000 - timestamp e < CACHE_DURATION"
    by (simp add: CACHE_DURATION_def)
  with e(2) have "getCachedResult (w'\<lparr>clock := timestamp e + 4 * 60 * 1000\<rparr>) ''ghost''
      = Some (result e)"
    by blast
  with run u d miss cache_wf_world_torvalds e(1,3) r show ?thesis
    by (auto simp: error_result_def)
qed

lemma merge_all_cached:
  assumes wf: "cache_wf w" and hit: "cacheMisses w us = []"
  shows "mergeResults (List.map_filter (getCachedResult w) us) [] us = map (getCachedResult w) us"
    and "length (List.map_filter (getCachedResult w) us) = length us"
proof -
  let ?cached = "List.map_filter (getCachedResult w) us"
  have all: "getCachedResult w u \<noteq> None" if "u \<in> set us" for u
    using hit that by (auto simp: cacheMisses_def filter_empty_conv)
  have one: "(case find_result ?cached u of Some c \<Rightarrow> Some c | None \<Rightarrow> find_result [] u)
      = getCachedResult w u" if u: "u \<in> set us" for u
  proof -
    from all [OF u] obtain c where c: "getCachedResult w u = Some c"
      by auto
    with u have "c \<in> set ?cached"
      by (auto simp: set_cached)
    moreover have "username c = u"
      using wf c by (rule getCachedResult_wf)
    ultimately have "u \<in> username ` set ?cached"
      by blast
    then obtain c' where f: "find_result ?cached u = Some c'"
      using find_result_None [of ?cached u] by (cases "find_result ?cached u") auto
    from find_result_Some [OF f] obtain u' where
      c': "getCachedResult w u' = Some c'" "username c' = u"
      by (auto simp: set_cached)
    from getCachedResult_wf [OF wf c'(1)] c'(2) have "u' = u"
      by simp
    with c c' f show ?thesis
      by simp
  qed
  show "mergeResults ?cached [] us = map (getCachedResult w) us"
    unfolding mergeResults_def using one by simp
  have "filter (\<lambda>x. getCachedResult w x \<noteq> None) us = us"
    using all by (simp add: filter_id_conv)
  then show "length ?cached = length us"
    by (simp add: List.map_filter_def)
qed

lemma checkRateLimit_charges:
  assumes "checkRateLimit ip hasToken w = (rl, w1)" and "allowed rl"
  shows "\<exists>q. rateLimitMap w1 ip = Some q
           \<and> count q = (case rateLimitMap w ip of
                          None \<Rightarrow> 1
                        | Some l \<Rightarrow> if clock w > resetTime l then 1 else count l + 1)"
  using assms
  by (cases "rateLimitMap w ip")
     (auto simp: checkRateLimit_def Let_def split: if_splits)

text \<open>
  C1, as the handler has it. A well-formed request whose handles all have a fresh cache
  entry makes no remote call and leaves the cache as it is; when the limiter admits it,
  the response carries the cached result of each handle in the order of the request,
  with \<open>cacheStats = {cached: n, validated: 0, total: n}\<close>. The limiter is consulted
  before the cache: an admitted request is charged to the caller's window like any other
  (a new window with count 1, or the count raised by one), and a request that finds the
  window exhausted is refused with status 429 although every handle is cached.
\<close>

theorem all_cached_request:
  assumes "cache_wf w" and "usernames req \<noteq> []" and "length (usernames req) \<le> 5000"
    and "cacheMisses w (usernames req) = []"
    and "checkRateLimit (client_ip req) (truthy (githubToken req)) w = (rl, w1)"
  shows "POST env req w =
      (if \<not> allowed rl
       then (Status429 ''Rate limit exceeded. Please try again later.''
               (rl_resetTime rl) (remaining rl), w1)
       else (Status200
         \<lparr>results = map (getCachedResult w) (usernames req),
          rateLimit = \<lparr>info_remaining = remaining rl, info_resetTime = rl_resetTime rl,
                       info_limit = (if truthy (githubToken req) then 5000 else 60)\<rparr>,
          cacheStats = \<lparr>cached = length (usernames req), validated = 0,
                        total = length (usernames req)\<rparr>,
          method_used = REST\<rparr>, w1))
     \<and> netlog w1 = netlog w \<and> validationCache w1 = validationCache w \<and> clock w1 = clock w
     \<and> (allowed rl \<longrightarrow>
          (\<exists>q. rateLimitMap w1 (client_ip req) = Some q
             \<and> count q = (case rateLimitMap w (client_ip req) of
                            None \<Rightarrow> 1
                          | Some l \<Rightarrow> if clock w > resetTime l then 1 else count l + 1)))"
proof -
  have v: "validateUncached env (requested_method req) (githubToken req)
      (cacheMisses w (usernames req)) w1 = ([], False, w1)"
    using assms(4) by simp
  have "POST env req w =
      (if \<not> allowed rl
       then (Status429 ''Rate limit exceeded. Please try again later.''
               (rl_resetTime rl) (remaining rl), w1)
       else (Status200
         \<lparr>results = map (getCachedResult w) (usernames req),
          rateLimit = \<lparr>info_remaining = remaining rl, info_resetTime = rl_resetTime rl,
                       info_limit = (if truthy (githubToken req) then 5000 else 60)\<rparr>,
          cacheStats = \<lparr>cached = length (usernames req), validated = 0,
                        total = length (usernames req)\<rparr>,
          method_used = REST\<rparr>, w1))"
    using POST_unfold [OF assms(2,3,5) v] merge_all_cached [OF assms(1,4)]
    by simp
  moreover note checkRateLimit_frame [OF assms(5)]
  moreover have "allowed rl \<longrightarrow>
          (\<exists>q. rateLimitMap w1 (client_ip req) = Some q
             \<and> count q = (case rateLimitMap w (client_ip req) of
                            None \<Rightarrow> 1
                          | Some l \<Rightarrow> if clock w > resetTime l then 1 else count l + 1))"
    using checkRateLimit_charges [OF assms(5)] by blast
  ultimately show ?thesis
    by blast
qed

lemma torvalds_all_cached:
  "cacheMisses world_torvalds (usernames req_torvalds) = []"
  "cacheMisses world_exhausted (usernames req_torvalds) = []"
  by (simp_all add: cacheMisses_def getCachedResult_def world_torvalds_def world_exhausted_def
      req_torvalds_def CACHE_DURATION_def)

lemma cache_wf_world_exhausted: "cache_wf world_exhausted"
  by (simp add: cache_wf_def world_exhausted_def world_torvalds_def torvalds_result_def)

theorem all_cached_request_witness:
  "cache_wf world_torvalds \<and> cacheMisses world_torvalds (usernames req_torvalds) = []
   \<and> (\<exists>w1. POST remote1 req_torvalds world_torvalds =
         (Status200
            \<lparr>results = [Some torvalds_result],
             rateLimit = \<lparr>info_remaining = 59, info_resetTime = 1700003600000,
                          info_limit = 60\<rparr>,
             cacheStats = \<lparr>cached = 1, validated = 0, total = 1\<rparr>,
             method_used = REST\<rparr>, w1)
        \<and> netlog w1 = [] \<and> validationCache w1 = validationCache world_torvalds
        \<and> (\<exists>q. rateLimitMap w1 ''203.0.113.7'' = Some q \<and> count q = 1))
   \<and> cache_wf world_exhausted \<and> cacheMisses world_exhausted (usernames req_torvalds) = []
   \<and> POST remote1 req_torvalds world_exhausted =
         (Status429 ''Rate limit exceeded. Please try again later.'' 1700001800000 0,
          world_exhausted)"
proof -
  let ?rl = "\<lparr>allowed = True, remaining = 59, rl_resetTime = 1700003600000\<rparr>"
  let ?w1 = "world_torvalds\<lparr>rateLimitMap :=
     [''203.0.113.7'' \<mapsto> \<lparr>count = 1, resetTime = 1700003600000\<rparr>]\<rparr>"
  have ne: "usernames req_torvalds \<noteq> []" and le: "length (usernames req_torvalds) \<le> 5000"
    by (simp_all add: req_torvalds_def)
  have rl: "checkRateLimit (client_ip req_torvalds) (truthy (githubToken req_torvalds))
      world_torvalds = (?rl, ?w1)"
    by (simp add: checkRateLimit_def client_ip_def truthy_def req_torvalds_def
        world_torvalds_def)
  have rlx: "checkRateLimit (client_ip req_torvalds) (truthy (githubToken req_torvalds))
      world_exhausted = (\<lparr>allowed = False, remaining = 0, rl_resetTime = 1700001800000\<rparr>,
        world_exhausted)"
    by (simp add: checkRateLimit_def client_ip_def truthy_def req_torvalds_def
        world_torvalds_def world_exhausted_def)
  have look: "getCachedResult world_torvalds ''torvalds'' = Some torvalds_result"
    by (simp add: getCachedResult_def world_torvalds_def CACHE_DURATION_def)
  have ip: "client_ip req_torvalds = ''203.0.113.7''"
    by (simp add: client_ip_def req_torvalds_def)
  have none: "rateLimitMap world_torvalds ''203.0.113.7'' = None"
    by (simp add: world_torvalds_def)
  note a = all_cached_request [OF cache_wf_world_torvalds ne le torvalds_all_cached(1) rl,
      of remote1]
  note b = all_cached_request [OF cache_wf_world_exhausted ne le torvalds_all_cached(2) rlx,
      of remote1]
  have first: "\<exists>w1. POST remote1 req_torvalds world_torvalds =
         (Status200
            \<lparr>results = [Some torvalds_result],
             rateLimit = \<lparr>info_remaining = 59, info_resetTime = 1700003600000,
                          info_limit = 60\<rparr>,
             cacheStats = \<lparr>cached = 1, validated = 0, total = 1\<rparr>,
             method_used = REST\<rparr>, w1)
        \<and> netlog w1 = [] \<and> validationCache w1 = validationCache world_torvalds
        \<and> (\<exists>q. rateLimitMap w1 ''203.0.113.7'' = Some q \<and> count q = 1)"
    using a by (intro exI [of _ ?w1])
      (simp add: look ip none req_torvalds_def truthy_def, simp add: world_torvalds_def)
  have second: "POST remote1 req_torvalds world_exhausted =
         (Status429 ''Rate limit exceeded. Please try again later.'' 1700001800000 0,
          world_exhausted)"
    using b by simp
  from first second cache_wf_world_torvalds cache_wf_world_exhausted torvalds_all_cached
  show ?thesis
    by blast
qed

text \<open>
  C1 as stated fails: \<open>torvalds\<close> has a fresh cache entry and the caller has no quota
  window; after the request the caller has a window with count 1, and after the same
  request again, count 2.
\<close>

theorem cache_hit_consumes_quota:
  "cacheMisses world_torvalds (usernames req_torvalds) = []
   \<and> rateLimitMap world_torvalds ''203.0.113.7'' = None
   \<and> rateLimitMap (snd (POST remote1 req_torvalds world_torvalds)) ''203.0.113.7''
        = Some \<lparr>count = 1, resetTime = 1700003600000\<rparr>
   \<and> rateLimitMap (snd (POST remote1 req_torvalds
          (snd (POST remote1 req_torvalds world_torvalds)))) ''203.0.113.7''
        = Some \<lparr>count = 2, resetTime = 1700003600000\<rparr>"
  by (simp add: eval_defs req_torvalds_def world_torvalds_def)

subsection \<open>Fallback after a failed batch query\<close>

lemma restResults_Nil [simp]: "restResults env n [] = []"
  by (simp add: restResults_def)

lemma restResults_Cons:
  "restResults env n (u # us) = restResult u (users_api env n u) # restResults env (Suc n) us"
  by (simp add: restResults_def)

lemma restResults_append:
  "restResults env n (us @ vs) = restResults env n us @ restResults env (n + length us) vs"
  by (simp add: restResults_def enumerate_append_eq)

lemma restChunk_results:
  "fst (restChunk env us w) = restResults env (length (netlog w)) us"
proof (induction us arbitrary: w)
  case Nil
  then show ?case by simp
next
  case (Cons u us)
  from Cons.IH [of "fetched env (RestUserCall u) w"] show ?case
    by (simp add: Let_def restResults_Cons case_prod_beta)
qed

lemma restChunks_results:
  "fst (restChunks env chunks w) = restResults env (length (netlog w)) (concat chunks)"
proof (induction chunks arbitrary: w)
  case Nil
  then show ?case by simp
next
  case (Cons chunk chunks)
  obtain rs1 w1 where one: "restChunk env chunk w = (rs1, w1)"
    by (cases "restChunk env chunk w")
  let ?w2 = "if chunks \<noteq> [] then delay 100 w1 else w1"
  have log: "netlog ?w2 = netlog w @ map RestUserCall chunk"
    using restChunk_props [OF one] by simp
  have rs1: "rs1 = restResults env (length (netlog w)) chunk"
    using restChunk_results [of env chunk w] one by simp
  from Cons.IH [of ?w2] show ?case
    using one rs1 log by (simp add: Let_def restResults_append case_prod_beta)
qed

lemma validateUsernamesREST_results:
  "validateUsernamesREST env us w = (rs, w') \<Longrightarrow> rs = restResults env (length (netlog w)) us"
  using restChunks_results [of env "slices 20 us" w]
  by (simp add: validateUsernamesREST_def concat_slices)

lemma graphqlBatches_cache_frame:
  "graphqlBatches env bs acc w = (r, w') \<Longrightarrow> k \<notin> set (concat bs) \<Longrightarrow>
   validationCache w' k = validationCache w k"
proof (induction bs arbitrary: acc w)
  case Nil
  then show ?case by simp
next
  case (Cons b bs)
  let ?w1 = "fetched env (GraphQLCall b) w"
  show ?case
  proof (cases "graphql_api env (length (netlog w)) b")
    case (GqlThrows msg)
    with Cons.prems have "w' = ?w1"
      by (simp add: validateUsernamesGraphQL_def)
    then show ?thesis by simp
  next
    case (GqlBody data errors)
    let ?brs = "graphqlResults data errors b"
    from GqlBody Cons.prems have
      rec: "graphqlBatches env bs (acc @ ?brs) (cacheResults ?brs ?w1) = (r, w')"
      by (simp add: validateUsernamesGraphQL_def)
    have "set (map username ?brs) = set b"
      by simp
    then have "username ` set (rev ?brs) = set b"
      by (simp del: map_username_graphqlResults)
    then have "k \<notin> username ` set (rev ?brs)"
      using Cons.prems(2) by simp
    then have "find_result (rev ?brs) k = None"
      using find_result_None [of "rev ?brs" k] by blast
    then have "validationCache (cacheResults ?brs ?w1) k = validationCache w k"
      by (simp add: cacheResults_cache)
    moreover have "k \<notin> set (concat bs)"
      using Cons.prems(2) by simp
    ultimately show ?thesis
      using Cons.IH [OF rec] by simp
  qed
qed


lemma validateUncached_fallback:
  assumes run: "validateUncached env m token misses w = (rs, g, w')"
    and ne: "misses \<noteq> []" and g: "chooseGraphQL m token (length misses)"
    and tok: "truthy token"
    and gq: "graphqlBatches env (slices 100 misses) [] w = (Inl err, w1)"
  shows "\<exists>j < length (slices 100 misses).
      (\<exists>msg. graphql_api env (length (netlog w) + j) (slices 100 misses ! j) = GqlThrows msg)
      \<and> (\<forall>i < j. \<forall>msg. graphql_api env (length (netlog w) + i) (slices 100 misses ! i)
                     \<noteq> GqlThrows msg)
      \<and> netlog w' = netlog w @ map GraphQLCall (take (Suc j) (slices 100 misses))
                       @ map RestUserCall misses
      \<and> rs = restResults env (length (netlog w) + Suc j) misses
      \<and> (\<forall>u. validationCache w' u =
            (case find_result (rev rs) u of
               Some r \<Rightarrow> Some \<lparr>result = r, timestamp = clock w'\<rparr>
             | None \<Rightarrow> validationCache w u))
      \<and> rateLimitMap w' = rateLimitMap w \<and> g"
proof -
  let ?bs = "slices 100 misses"
  obtain rs2 w2 where rest: "validateUsernamesREST env misses w1 = (rs2, w2)"
    by (cases "validateUsernamesREST env misses w1")
  from validateUncached_graphql_fail [OF ne g tok gq rest] run
  have eq: "rs = rs2" "g" "w' = cacheResults rs2 w2"
    by simp_all
  from graphqlBatches_first_throw [OF gq] obtain j where
    j: "j < length ?bs"
    "netlog w1 = netlog w @ map GraphQLCall (take (Suc j) ?bs)"
    "\<exists>msg. graphql_api env (length (netlog w) + j) (?bs ! j) = GqlThrows msg"
    "\<forall>i < j. \<forall>msg. graphql_api env (length (netlog w) + i) (?bs ! i) \<noteq> GqlThrows msg"
    by blast
  note p = validateUsernamesREST_props [OF rest]
  have len: "length (netlog w1) = length (netlog w) + Suc j"
    using j(1,2) by simp
  have rs2: "rs2 = restResults env (length (netlog w) + Suc j) misses"
    using validateUsernamesREST_results [OF rest] len by simp
  have log: "netlog w' = netlog w @ map GraphQLCall (take (Suc j) ?bs) @ map RestUserCall misses"
    unfolding eq using p(2) j(2) by simp
  have rl: "rateLimitMap w' = rateLimitMap w"
    unfolding eq using p(4) graphqlBatches_fail [OF gq] by simp
  have cache: "validationCache w' u =
            (case find_result (rev rs) u of
               Some r \<Rightarrow> Some \<lparr>result = r, timestamp = clock w'\<rparr>
             | None \<Rightarrow> validationCache w u)" for u
  proof (cases "find_result (rev rs) u")
    case None
    then have "u \<notin> username ` set (rev rs)"
      using find_result_None [of "rev rs" u] by blast
    then have "u \<notin> set (map username rs)"
      by simp
    then have "u \<notin> set (concat ?bs)"
      using p(1) eq(1) by (simp add: concat_slices)
    from graphqlBatches_cache_frame [OF gq this] None p(3) show ?thesis
      unfolding eq by (simp add: cacheResults_cache)
  next
    case (Some r)
    then show ?thesis
      unfolding eq by (simp add: cacheResults_cache)
  qed
  from j(1,3,4) log rs2 cache rl eq(1,2) show ?thesis
    by blast
qed

lemma slices_Nil [simp]: "slices n [] = []"
  by (subst slices.simps) simp

lemma POST_graphql_netlog:
  assumes "POST env req w = (Status200 body, w')"
    and "truthy (githubToken req)"
    and "chooseGraphQL (requested_method req) (githubToken req)
           (length (cacheMisses w (usernames req)))"
    and "k < length (slices 100 (cacheMisses w (usernames req)))"
    and "graphql_api env (length (netlog w) + k) (slices 100 (cacheMisses w (usernames req)) ! k)
           = GqlThrows msg"
  shows "\<exists>j \<le> k.
      (\<exists>m. graphql_api env (length (netlog w) + j)
                       (slices 100 (cacheMisses w (usernames req)) ! j) = GqlThrows m)
      \<and> (\<forall>i < j. \<forall>m. graphql_api env (length (netlog w) + i)
                       (slices 100 (cacheMisses w (usernames req)) ! i) \<noteq> GqlThrows m)
      \<and> netlog w' = netlog w
            @ map GraphQLCall (take (Suc j) (slices 100 (cacheMisses w (usernames req))))
            @ map RestUserCall (cacheMisses w (usernames req))"
proof -
  let ?misses = "cacheMisses w (usernames req)"
  let ?bs = "slices 100 ?misses"
  from assms(1) obtain rl w1 rs g where
    rl: "checkRateLimit (client_ip req) (truthy (githubToken req)) w = (rl, w1)"
    and v: "validateUncached env (requested_method req) (githubToken req) ?misses w1
              = (rs, g, w')"
    by (rule POST_200)
  have log: "netlog w1 = netlog w"
    using rl by (rule checkRateLimit_frame(2))
  have ne: "?misses \<noteq> []"
    using assms(4) by auto
  from validateUncached_netlog_graphql [OF v ne assms(3,2)] show ?thesis
  proof (elim disjE exE conjE)
    assume "\<forall>i < length ?bs. \<forall>msg.
        graphql_api env (length (netlog w1) + i) (?bs ! i) \<noteq> GqlThrows msg"
    with assms(4,5) log show ?thesis by simp
  next
    fix j m
    assume j: "j < length ?bs"
      "graphql_api env (length (netlog w1) + j) (?bs ! j) = GqlThrows m"
      "\<forall>i < j. \<forall>m. graphql_api env (length (netlog w1) + i) (?bs ! i) \<noteq> GqlThrows m"
      "netlog w' = netlog w1 @ map GraphQLCall (take (Suc j) ?bs) @ map RestUserCall ?misses"
    have "j \<le> k"
    proof (rule ccontr)
      assume "\<not> j \<le> k"
      then have "k < j" by simp
      with j(3) assms(5) log show False by simp
    qed
    with j(2,3,4) log show ?thesis
      by auto
  qed
qed

lemma POST_graphql_fallback:
  assumes "POST env req w = (Status200 body, w')"
    and "truthy (githubToken req)"
    and "chooseGraphQL (requested_method req) (githubToken req)
           (length (cacheMisses w (usernames req)))"
    and "k < length (slices 100 (cacheMisses w (usernames req)))"
    and "graphql_api env (length (netlog w) + k) (slices 100 (cacheMisses w (usernames req)) ! k)
           = GqlThrows msg"
  shows "\<exists>j \<le> k.
      netlog w' = netlog w
            @ map GraphQLCall (take (Suc j) (slices 100 (cacheMisses w (usernames req))))
            @ map RestUserCall (cacheMisses w (usernames req))
      \<and> results body =
            mergeResults (List.map_filter (getCachedResult w) (usernames req))
              (restResults env (length (netlog w) + Suc j) (cacheMisses w (usernames req)))
              (usernames req)
      \<and> (\<forall>u. validationCache w' u =
            (case find_result
                    (rev (restResults env (length (netlog w) + Suc j)
                            (cacheMisses w (usernames req)))) u of
               Some r \<Rightarrow> Some \<lparr>result = r, timestamp = clock w'\<rparr>
             | None \<Rightarrow> validationCache w u))
      \<and> rateLimitMap w' =
            rateLimitMap (snd (checkRateLimit (client_ip req) (truthy (githubToken req)) w))
      \<and> method_used body = GraphQL"
proof -
  let ?misses = "cacheMisses w (usernames req)"
  let ?bs = "slices 100 ?misses"
  from assms(1) obtain rl w1 rs g where
    rl: "checkRateLimit (client_ip req) (truthy (githubToken req)) w = (rl, w1)"
    and v: "validateUncached env (requested_method req) (githubToken req) ?misses w1
              = (rs, g, w')"
    and body: "body =
      \<lparr>results = mergeResults (List.map_filter (getCachedResult w) (usernames req)) rs
                   (usernames req),
       rateLimit = \<lparr>info_remaining = remaining rl, info_resetTime = rl_resetTime rl,
                    info_limit = (if truthy (githubToken req) then 5000 else 60)\<rparr>,
       cacheStats = \<lparr>cached = length (List.map_filter (getCachedResult w) (usernames req)),
                     validated = length rs, total = length (usernames req)\<rparr>,
       method_used = (if g then GraphQL else REST)\<rparr>"
    by (rule POST_200)
  note fr = checkRateLimit_frame [OF rl]
  have ne: "?misses \<noteq> []"
    using assms(4) by auto
  obtain r1 w2 where gq: "graphqlBatches env ?bs [] w1 = (r1, w2)"
    by (cases "graphqlBatches env ?bs [] w1")
  have "\<exists>err. r1 = Inl err"
  proof (cases r1)
    case (Inr rs1)
    from graphqlBatches_ok_no_throw [OF gq [unfolded Inr] assms(4), of msg] assms(5) fr(2)
    show ?thesis by simp
  qed simp
  then obtain err where gq': "graphqlBatches env ?bs [] w1 = (Inl err, w2)"
    using gq by auto
  from validateUncached_fallback [OF v ne assms(3,2) gq'] obtain j where
    j: "j < length ?bs"
    "\<exists>m. graphql_api env (length (netlog w1) + j) (?bs ! j) = GqlThrows m"
    "\<forall>i < j. \<forall>m. graphql_api env (length (netlog w1) + i) (?bs ! i) \<noteq> GqlThrows m"
    "netlog w' = netlog w1 @ map GraphQLCall (take (Suc j) ?bs) @ map RestUserCall ?misses"
    "rs = restResults env (length (netlog w1) + Suc j) ?misses"
    "\<forall>u. validationCache w' u =
            (case find_result (rev rs) u of
               Some r \<Rightarrow> Some \<lparr>result = r, timestamp = clock w'\<rparr>
             | None \<Rightarrow> validationCache w1 u)"
    "rateLimitMap w' = rateLimitMap w1" "g"
    by blast
  have "j \<le> k"
  proof (rule ccontr)
    assume "\<not> j \<le> k"
    then have "k < j" by simp
    with j(3) assms(5) fr(2) show False by simp
  qed
  moreover have "rateLimitMap w' =
      rateLimitMap (snd (checkRateLimit (client_ip req) (truthy (githubToken req)) w))"
    using j(7) rl by simp
  moreover have "results body =
      mergeResults (List.map_filter (getCachedResult w) (usernames req))
        (restResults env (length (netlog w) + Suc j) ?misses) (usernames req)"
    using body j(5) fr(2) by simp
  moreover have "method_used body = GraphQL"
    using body j(8) by simp
  moreover have "\<forall>u. validationCache w' u =
            (case find_result (rev (restResults env (length (netlog w) + Suc j) ?misses)) u of
               Some r \<Rightarrow> Some \<lparr>result = r, timestamp = clock w'\<rparr>
             | None \<Rightarrow> validationCache w u)"
    using j(5,6) fr(1,2) by (simp split: option.splits)
  moreover have "netlog w' = netlog w @ map GraphQLCall (take (Suc j) ?bs)
      @ map RestUserCall ?misses"
    using j(4) fr(2) by simp
  ultimately show ?thesis
    by blast
qed


lemma slices_two:
  assumes "n < length xs" and "length xs \<le> 2 * n"
  shows "slices n xs = [take n xs, drop n xs]"
proof -
  have "xs \<noteq> []" "0 < n" "drop n xs \<noteq> []" "drop n (drop n xs) = []"
    using assms by auto
  then show ?thesis
    by (simp add: slices_Cons)
qed

lemma handles_nth: "i < n \<Longrightarrow> handles n ! i = ''dev-'' @ decimal i"
  by (simp add: handles_def)

lemma decimal_0: "decimal 0 = ''0''"
  by code_simp

lemma slices_handles_101:
  "slices 100 (handles 101) = [take 100 (handles 101), drop 100 (handles 101)]"
  by (rule slices_two) simp_all

lemma accepted_flaky:
  "\<exists>body w'. POST remote_flaky (req_graphql 101) world0 = (Status200 body, w')"
proof (rule POST_accepts)
  show "allowed (fst (checkRateLimit (client_ip (req_graphql 101))
      (truthy (githubToken (req_graphql 101))) world0))"
    by (rule allowed_fresh_ip) (simp add: world0_def)
qed (simp_all add: req_graphql_def)

lemma flaky_facts:
  "truthy (githubToken (req_graphql 101))"
  "cacheMisses world0 (usernames (req_graphql 101)) = handles 101"
  "chooseGraphQL (requested_method (req_graphql 101)) (githubToken (req_graphql 101)) n"
  "netlog world0 = []"
  "0 < i \<Longrightarrow> graphql_api remote_flaky i us = GqlThrows ''GraphQL request failed: 502''"
  "graphql_api remote_flaky 0 us = GqlBody Map.empty []"
  by (simp_all add: req_graphql_def truthy_def cacheMisses_empty_cache world0_def
      chooseGraphQL_def requested_method_def remote_flaky_def)

lemma flaky_netlog:
  assumes "POST remote_flaky (req_graphql 101) world0 = (Status200 body, w')"
  shows "netlog w' = GraphQLCall (take 100 (handles 101)) # GraphQLCall (drop 100 (handles 101))
            # map RestUserCall (handles 101)"
proof -
  have k: "1 < length (slices 100 (cacheMisses world0 (usernames (req_graphql 101))))"
    by (simp add: flaky_facts slices_handles_101)
  have thr: "graphql_api remote_flaky (length (netlog world0) + 1)
      (slices 100 (cacheMisses world0 (usernames (req_graphql 101))) ! 1)
      = GqlThrows ''GraphQL request failed: 502''"
    by (simp add: flaky_facts)
  from POST_graphql_netlog [OF assms flaky_facts(1) flaky_facts(3) k thr]
  obtain j m where j: "j \<le> 1"
    "graphql_api remote_flaky j (slices 100 (handles 101) ! j) = GqlThrows m"
    "netlog w' = map GraphQLCall (take (Suc j) (slices 100 (handles 101)))
        @ map RestUserCall (handles 101)"
    by (auto simp: flaky_facts)
  have "j \<noteq> 0"
  proof
    assume "j = 0"
    with j(2) flaky_facts(6) [of "slices 100 (handles 101) ! 0"] show False
      by simp
  qed
  with j(1) have "j = 1" by simp
  with j(3) show ?thesis
    by (simp add: slices_handles_101)
qed



lemma same_handle_iff:
  "same_handle rows i j \<longleftrightarrow>
     (\<exists>a b. extractUsername (rows ! i) = Some a \<and> extractUsername (rows ! j) = Some b
         \<and> toLowerCase16 a = toLowerCase16 b)"
  by (auto simp: same_handle_def split: option.splits)

lemma repeated_iff:
  "repeated rows k \<longleftrightarrow> (\<exists>k' < length rows. k' \<noteq> k \<and> same_handle rows k k')"
  by (auto simp: repeated_def)

lemma cleanUsername_Some: "cleanUsername s = Some u \<Longrightarrow> u \<noteq> [] \<and> length u \<le> 39"
  by (auto simp: cleanUsername_def Let_def split: if_splits)

lemma tryPatterns_Some:
  "tryPatterns ps v = Some (Some u) \<Longrightarrow> u \<noteq> [] \<and> length u \<le> 39"
  by (induction ps) (auto dest: cleanUsername_Some split: option.splits if_splits)

lemma extractUsername_Some: "extractUsername v = Some u \<Longrightarrow> u \<noteq> [] \<and> length u \<le> 39"
  by (auto simp: extractUsername_def Let_def dest: cleanUsername_Some tryPatterns_Some
      split: if_splits option.splits)

lemma truthy_extract: "truthy (extractUsername v) \<longleftrightarrow> extractUsername v \<noteq> None"
  using extractUsername_Some [of v] by (cases "extractUsername v") (auto simp: truthy_def)

lemma markFirst_shift:
  "\<forall>k < length us. index_pu (us ! k) = k + off \<Longrightarrow> off \<le> f \<Longrightarrow> f - off < length us \<Longrightarrow>
   markFirst f us = us[f - off := markDuplicate (us ! (f - off))]"
proof (induction us arbitrary: off)
  case Nil
  then show ?case by simp
next
  case (Cons u us)
  show ?case
  proof (cases "f = off")
    case True
    with Cons.prems(1) have "index_pu u = f" by auto
    with True show ?thesis by simp
  next
    case False
    with Cons.prems have lt: "off < f" by simp
    from Cons.prems(1) have "index_pu u = off" by auto
    with lt have ne: "index_pu u \<noteq> f" by simp
    have tl: "\<forall>k < length us. index_pu (us ! k) = k + Suc off"
      using Cons.prems(1) by auto
    have "f - Suc off < length us"
      using Cons.prems(3) lt by (cases "f - off") auto
    from Cons.IH [OF tl _ this] lt have "markFirst f us = us[f - Suc off := markDuplicate (us ! (f - Suc off))]"
      by simp
    moreover have "f - off = Suc (f - Suc off)" using lt by simp
    ultimately show ?thesis
      using ne by simp
  qed
qed

lemma markFirst_nth:
  assumes "\<forall>k < length us. index_pu (us ! k) = k" and "f < length us"
  shows "markFirst f us = us[f := markDuplicate (us ! f)]"
  using markFirst_shift [of us 0 f] assms by simp


lemma markDuplicate_fields [simp]:
  "index_pu (markDuplicate u) = index_pu u"
  "username_pu (markDuplicate u) = username_pu u"
  "originalValue (markDuplicate u) = originalValue u"
  by (simp_all add: markDuplicate_def)

lemma status_markDuplicate:
  "status_pu (markDuplicate u) = (if status_pu u = UPending then UDuplicate else status_pu u)"
  by (simp add: markDuplicate_def)

lemma processRow_invalid:
  assumes "extractUsername r = None"
  shows "processRow n r st =
     st\<lparr>users := users st
          @ [\<lparr>originalValue = r, username_pu = None, status_pu = UInvalid,
              error_pu = Some ''Invalid username format or not found'', index_pu = n\<rparr>]\<rparr>"
  using assms by (simp add: processRow_def truthy_def)

lemma processRow_new:
  assumes "extractUsername r = Some u" and "seenUsernames st (toLowerCase16 u) = None"
  shows "processRow n r st =
     st\<lparr>seenUsernames := (seenUsernames st)(toLowerCase16 u \<mapsto> n),
        validUsernameCount := validUsernameCount st + 1,
        users := users st
          @ [\<lparr>originalValue = r, username_pu = Some u, status_pu = UPending,
              error_pu = None, index_pu = n\<rparr>]\<rparr>"
  using assms truthy_extract [of r] by (simp add: processRow_def Let_def)

lemma processRow_seen:
  assumes "extractUsername r = Some u" and "seenUsernames st (toLowerCase16 u) = Some f"
  shows "processRow n r st =
     st\<lparr>duplicateUsernames := insert (toLowerCase16 u) (duplicateUsernames st),
        users := markFirst f (users st)
          @ [\<lparr>originalValue = r, username_pu = Some u, status_pu = UDuplicate,
              error_pu = Some ''Duplicate username found'', index_pu = n\<rparr>]\<rparr>"
  using assms truthy_extract [of r] by (simp add: processRow_def Let_def)

lemma same_handle_append:
  "i < length pre \<Longrightarrow> j < length pre \<Longrightarrow> same_handle (pre @ [r]) i j = same_handle pre i j"
  by (simp add: same_handle_iff nth_append)

lemma same_handle_last:
  "i < length pre \<Longrightarrow>
   same_handle (pre @ [r]) i (length pre) =
     (\<exists>a b. extractUsername (pre ! i) = Some a \<and> extractUsername r = Some b
         \<and> toLowerCase16 a = toLowerCase16 b)"
  by (simp add: same_handle_iff nth_append)

lemma same_handle_sym: "same_handle rows i j = same_handle rows j i"
  by (auto simp: same_handle_iff)

lemma pass_invD:
  assumes "pass_inv pre st"
  shows "length (users st) = length pre"
    and "k < length pre \<Longrightarrow> index_pu (users st ! k) = k"
    and "k < length pre \<Longrightarrow> username_pu (users st ! k) = extractUsername (pre ! k)"
    and "k < length pre \<Longrightarrow> originalValue (users st ! k) = pre ! k"
    and "k < length pre \<Longrightarrow> extractUsername (pre ! k) = None \<Longrightarrow>
           status_pu (users st ! k) = UInvalid"
    and "k < length pre \<Longrightarrow> extractUsername (pre ! k) = Some u \<Longrightarrow>
           status_pu (users st ! k) = UPending \<or> status_pu (users st ! k) = UDuplicate"
    and "seenUsernames st l = Some k \<Longrightarrow> k < length pre"
    and "seenUsernames st l = Some k \<Longrightarrow>
           \<exists>v. extractUsername (pre ! k) = Some v \<and> toLowerCase16 v = l"
    and "k < length pre \<Longrightarrow> extractUsername (pre ! k) = Some u \<Longrightarrow>
           seenUsernames st (toLowerCase16 u) \<noteq> None"
    and "k < length pre \<Longrightarrow> extractUsername (pre ! k) = Some u \<Longrightarrow>
           status_pu (users st ! k) \<noteq> UDuplicate \<Longrightarrow>
           seenUsernames st (toLowerCase16 u) = Some k"
    and "k < length pre \<Longrightarrow> extractUsername (pre ! k) = Some u \<Longrightarrow>
           status_pu (users st ! k) \<noteq> UDuplicate \<Longrightarrow> k' < length pre \<Longrightarrow> k' \<noteq> k \<Longrightarrow>
           \<not> same_handle pre k k'"
  using assms unfolding pass_inv_def by blast+

lemma pass_inv_invalid:
  assumes inv: "pass_inv pre st" and ex: "extractUsername r = None"
  shows "pass_inv (pre @ [r]) (processRow (length pre) r st)"
proof -
  let ?n = "length pre"
  let ?st' = "processRow ?n r st"
  have st': "users ?st' = users st
          @ [\<lparr>originalValue = r, username_pu = None, status_pu = UInvalid,
              error_pu = Some ''Invalid username format or not found'', index_pu = ?n\<rparr>]"
    "seenUsernames ?st' = seenUsernames st"
    by (simp_all add: processRow_invalid [OF ex])
  from inv have len: "length (users st) = ?n"
    by (simp add: pass_inv_def)
  have nolast: "\<not> same_handle (pre @ [r]) k ?n" for k
    using ex by (simp add: same_handle_iff nth_append)
  show ?thesis
    unfolding pass_inv_def st'
  proof (intro conjI allI impI)
    show "length (users st @ [\<lparr>originalValue = r, username_pu = None, status_pu = UInvalid,
              error_pu = Some ''Invalid username format or not found'', index_pu = ?n\<rparr>]) =
        length (pre @ [r])"
      using len by simp
  qed (use inv len ex nolast in \<open>auto simp: pass_inv_def nth_append less_Suc_eq same_handle_append\<close>)
qed


lemma pass_inv_new:
  assumes inv: "pass_inv pre st" and ex: "extractUsername r = Some u"
    and unseen: "seenUsernames st (toLowerCase16 u) = None"
  shows "pass_inv (pre @ [r]) (processRow (length pre) r st)"
proof -
  let ?n = "length pre"
  let ?st' = "processRow ?n r st"
  let ?new = "\<lparr>originalValue = r, username_pu = Some u, status_pu = UPending,
              error_pu = None, index_pu = ?n\<rparr>"
  have st': "users ?st' = users st @ [?new]"
    "seenUsernames ?st' = (seenUsernames st)(toLowerCase16 u \<mapsto> ?n)"
    by (simp_all add: processRow_new [OF ex unseen])
  from inv have len: "length (users st) = ?n"
    by (simp add: pass_inv_def)
  from inv have all_seen: "\<And>k v. k < ?n \<Longrightarrow> extractUsername (pre ! k) = Some v \<Longrightarrow>
      seenUsernames st (toLowerCase16 v) \<noteq> None"
    by (simp add: pass_inv_def)
  have other: "toLowerCase16 v \<noteq> toLowerCase16 u"
    if "k < ?n" "extractUsername (pre ! k) = Some v" for k v
    using all_seen [OF that] unseen by auto
  have nolast: "\<not> same_handle (pre @ [r]) k ?n" "\<not> same_handle (pre @ [r]) ?n k" if "k < ?n" for k
    using other [OF that] ex by (auto simp: same_handle_iff nth_append that)
  show ?thesis
    unfolding pass_inv_def st'
  proof (intro conjI allI impI)
    show "length (users st @ [?new]) = length (pre @ [r])"
      using len by simp
  next
    fix l k
    assume "((seenUsernames st)(toLowerCase16 u \<mapsto> ?n)) l = Some k"
    then show "k < length (pre @ [r])"
      using pass_invD(7) [OF inv, of l k] by (auto split: if_splits)
  next
    fix l k
    assume "((seenUsernames st)(toLowerCase16 u \<mapsto> ?n)) l = Some k"
    then show "\<exists>v. extractUsername ((pre @ [r]) ! k) = Some v \<and> toLowerCase16 v = l"
      using pass_invD(7,8) [OF inv, of l k] ex by (auto simp: nth_append split: if_splits)
  next
    fix k v
    assume "k < length (pre @ [r])" "extractUsername ((pre @ [r]) ! k) = Some v"
    then show "((seenUsernames st)(toLowerCase16 u \<mapsto> ?n)) (toLowerCase16 v) \<noteq> None"
      using all_seen [of k v] ex by (auto simp: nth_append less_Suc_eq)
  next
    fix k v
    assume k: "k < length (pre @ [r])" "extractUsername ((pre @ [r]) ! k) = Some v"
      "status_pu ((users st @ [?new]) ! k) \<noteq> UDuplicate"
    show "((seenUsernames st)(toLowerCase16 u \<mapsto> ?n)) (toLowerCase16 v) = Some k"
    proof (cases "k < ?n")
      case True
      with k len other [of k v] pass_invD(10) [OF inv, of k v] show ?thesis
        by (auto simp: nth_append)
    next
      case False
      with k ex show ?thesis by (auto simp: nth_append)
    qed
  next
    fix k v k'
    assume k: "k < length (pre @ [r])" "extractUsername ((pre @ [r]) ! k) = Some v"
      "status_pu ((users st @ [?new]) ! k) \<noteq> UDuplicate"
      "k' < length (pre @ [r])" "k' \<noteq> k"
    show "\<not> same_handle (pre @ [r]) k k'"
    proof (cases "k < ?n")
      case kn: True
      show ?thesis
      proof (cases "k' < ?n")
        case True
        with kn k len pass_invD(11) [OF inv, of k v k'] show ?thesis
          by (auto simp: nth_append same_handle_append)
      next
        case False
        with k(4) have "k' = ?n" by simp
        with nolast(1) [OF kn] show ?thesis by simp
      qed
    next
      case False
      with k(1) have kn: "k = ?n" by simp
      with k(4,5) have "k' < ?n" by simp
      from nolast(2) [OF this] kn show ?thesis by simp
    qed
  qed (use inv len ex in \<open>auto simp: pass_inv_def nth_append less_Suc_eq\<close>)
qed


lemma pass_inv_seen:
  assumes inv: "pass_inv pre st" and ex: "extractUsername r = Some u"
    and seen: "seenUsernames st (toLowerCase16 u) = Some f"
  shows "pass_inv (pre @ [r]) (processRow (length pre) r st)"
proof -
  let ?n = "length pre"
  let ?st' = "processRow ?n r st"
  let ?new = "\<lparr>originalValue = r, username_pu = Some u, status_pu = UDuplicate,
              error_pu = Some ''Duplicate username found'', index_pu = ?n\<rparr>"
  let ?us = "(users st)[f := markDuplicate (users st ! f)]"
  note len = pass_invD(1) [OF inv]
  have f: "f < ?n"
    using pass_invD(7) [OF inv seen] .
  obtain v where v: "extractUsername (pre ! f) = Some v" "toLowerCase16 v = toLowerCase16 u"
    using pass_invD(8) [OF inv seen] by blast
  have "markFirst f (users st) = ?us"
    using pass_invD(2) [OF inv] f len by (intro markFirst_nth) simp_all
  then have st': "users ?st' = ?us @ [?new]" "seenUsernames ?st' = seenUsernames st"
    by (simp_all add: processRow_seen [OF ex seen])
  have at: "?us ! k = (if k = f then markDuplicate (users st ! f) else users st ! k)"
    if "k < ?n" for k
    using that len by (simp add: nth_list_update)
  have stat_f: "status_pu (?us ! f) = UDuplicate"
    using pass_invD(6) [OF inv f v(1)] at [OF f] by (auto simp: status_markDuplicate)
  have stat: "status_pu (?us ! k) = status_pu (users st ! k)" if "k < ?n" "k \<noteq> f" for k
    using at [OF that(1)] that(2) by simp
  have flds: "index_pu (?us ! k) = k" "username_pu (?us ! k) = extractUsername (pre ! k)"
    "originalValue (?us ! k) = pre ! k" if "k < ?n" for k
    using at [OF that] pass_invD(2,3,4) [OF inv that] by auto
  have lenus: "length ?us = ?n"
    using len by simp
  show ?thesis
    unfolding pass_inv_def st'
  proof (intro conjI allI impI)
    show "length (?us @ [?new]) = length (pre @ [r])"
      using len by simp
  next
    fix k
    assume k: "k < length (pre @ [r])"
    show "index_pu ((?us @ [?new]) ! k) = k"
      using k flds(1) [of k] lenus by (auto simp: nth_append less_Suc_eq)
    show "username_pu ((?us @ [?new]) ! k) = extractUsername ((pre @ [r]) ! k)"
      using k flds(2) [of k] lenus ex by (auto simp: nth_append less_Suc_eq)
    show "originalValue ((?us @ [?new]) ! k) = (pre @ [r]) ! k"
      using k flds(3) [of k] lenus by (auto simp: nth_append less_Suc_eq)
    show "status_pu ((?us @ [?new]) ! k) = UInvalid" if "extractUsername ((pre @ [r]) ! k) = None"
    proof (cases "k < ?n")
      case True
      with that v(1) have "k \<noteq> f" by (auto simp: nth_append)
      with True that stat [of k] pass_invD(5) [OF inv True] lenus show ?thesis
        by (simp add: nth_append)
    next
      case False
      with k that ex show ?thesis by (simp add: nth_append)
    qed
    show "status_pu ((?us @ [?new]) ! k) = UPending \<or> status_pu ((?us @ [?new]) ! k) = UDuplicate"
      if "extractUsername ((pre @ [r]) ! k) \<noteq> None"
    proof (cases "k < ?n")
      case True
      with that obtain y where y: "extractUsername (pre ! k) = Some y"
        by (auto simp: nth_append)
      show ?thesis
      proof (cases "k = f")
        case True
        with stat_f f lenus show ?thesis by (simp add: nth_append)
      next
        case False
        with True stat [of k] pass_invD(6) [OF inv True y] lenus show ?thesis
          by (simp add: nth_append)
      qed
    next
      case False
      with k lenus show ?thesis by (simp add: nth_append)
    qed
  next
    fix l k
    assume "seenUsernames st l = Some k"
    then show "k < length (pre @ [r])"
      using pass_invD(7) [OF inv, of l k] by simp
  next
    fix l k
    assume "seenUsernames st l = Some k"
    then show "\<exists>w. extractUsername ((pre @ [r]) ! k) = Some w \<and> toLowerCase16 w = l"
      using pass_invD(7,8) [OF inv, of l k] by (auto simp: nth_append)
  next
    fix k w
    assume "k < length (pre @ [r])" "extractUsername ((pre @ [r]) ! k) = Some w"
    then show "seenUsernames st (toLowerCase16 w) \<noteq> None"
      using pass_invD(9) [OF inv, of k w] ex seen by (auto simp: nth_append less_Suc_eq)
  next
    fix k w
    assume k: "k < length (pre @ [r])" "extractUsername ((pre @ [r]) ! k) = Some w"
      "status_pu ((?us @ [?new]) ! k) \<noteq> UDuplicate"
    from k(1,3) lenus have kn: "k < ?n"
      by (auto simp: nth_append less_Suc_eq)
    with k(3) stat_f lenus have kf: "k \<noteq> f"
      by (auto simp: nth_append)
    from k(2) kn have w: "extractUsername (pre ! k) = Some w"
      by (simp add: nth_append)
    from k(3) kn kf lenus stat [of k] have nd: "status_pu (users st ! k) \<noteq> UDuplicate"
      by (simp add: nth_append)
    show "seenUsernames st (toLowerCase16 w) = Some k"
      using pass_invD(10) [OF inv kn w nd] .
    fix k'
    assume k': "k' < length (pre @ [r])" "k' \<noteq> k"
    show "\<not> same_handle (pre @ [r]) k k'"
    proof (cases "k' < ?n")
      case True
      with pass_invD(11) [OF inv kn w nd True k'(2)] kn show ?thesis
        by (simp add: same_handle_append)
    next
      case False
      with k'(1) have "k' = ?n" by simp
      moreover have "toLowerCase16 w \<noteq> toLowerCase16 u"
        using pass_invD(10) [OF inv kn w nd] seen kf by auto
      ultimately show ?thesis
        using kn w ex by (simp add: same_handle_last)
    qed
  qed
qed

lemma pass_inv_step:
  assumes "pass_inv pre st"
  shows "pass_inv (pre @ [r]) (processRow (length pre) r st)"
proof (cases "extractUsername r")
  case None
  with assms show ?thesis by (rule pass_inv_invalid)
next
  case (Some u)
  show ?thesis
  proof (cases "seenUsernames st (toLowerCase16 u)")
    case None
    with assms Some show ?thesis by (rule pass_inv_new)
  next
    case (Some f)
    with assms \<open>extractUsername r = Some u\<close> show ?thesis by (rule pass_inv_seen)
  qed
qed

lemma pass_inv_start: "pass_inv [] pass_start"
  by (simp add: pass_inv_def pass_start_def)

lemma pass_inv_processRows:
  "pass_inv pre st \<Longrightarrow> pass_inv (pre @ rows) (processRows (length pre) rows st)"
proof (induction rows arbitrary: pre st)
  case Nil
  then show ?case by simp
next
  case (Cons r rows)
  from pass_inv_step [OF Cons.prems, of r] have "pass_inv (pre @ [r]) (processRow (length pre) r st)" .
  from Cons.IH [OF this] show ?case by simp
qed

lemma pass_inv_final: "pass_inv rows (processRows 0 rows pass_start)"
  using pass_inv_processRows [OF pass_inv_start, of rows] by simp

subsection \<open>The two loops of processManualInput\<close>

lemma manualPass_props:
  assumes "manualPass idx ls (us, seen, dups) = (us', seen', dups')"
  shows "length us' = length us + length ls
     \<and> (\<forall>k < length us. us' ! k = us ! k)
     \<and> (\<forall>k < length ls.
           username_pu (us' ! (length us + k)) = extractUsername (trim (ls ! k))
           \<and> originalValue (us' ! (length us + k)) = trim (ls ! k)
           \<and> index_pu (us' ! (length us + k)) = idx + k
           \<and> status_pu (us' ! (length us + k))
               = (if extractUsername (trim (ls ! k)) = None then UInvalid else UPending))
     \<and> seen \<subseteq> seen' \<and> dups \<subseteq> dups'
     \<and> (\<forall>k < length ls. \<forall>u. extractUsername (trim (ls ! k)) = Some u \<longrightarrow>
           toLowerCase16 u \<in> seen' \<and> (toLowerCase16 u \<in> seen \<longrightarrow> toLowerCase16 u \<in> dups'))
     \<and> (\<forall>i j a b. i < j \<and> j < length ls \<and> extractUsername (trim (ls ! i)) = Some a
           \<and> extractUsername (trim (ls ! j)) = Some b \<and> toLowerCase16 a = toLowerCase16 b
           \<longrightarrow> toLowerCase16 a \<in> dups')"
  using assms
proof (induction ls arbitrary: idx us seen dups)
  case Nil
  then show ?case by simp
next
  case (Cons line ls)
  let ?o = "trim line"
  let ?u = "extractUsername ?o"
  let ?rec = "\<lparr>originalValue = ?o, username_pu = ?u,
                status_pu = (if truthy ?u then UPending else UInvalid),
                error_pu = (if truthy ?u then None else Some ''Invalid username format''),
                index_pu = idx\<rparr>"
  let ?seen1 = "if truthy ?u \<and> toLowerCase16 (the ?u) \<notin> seen
                then insert (toLowerCase16 (the ?u)) seen else seen"
  let ?dups1 = "if truthy ?u \<and> toLowerCase16 (the ?u) \<in> seen
                then insert (toLowerCase16 (the ?u)) dups else dups"
  have rec: "manualPass (Suc idx) ls (us @ [?rec], ?seen1, ?dups1) = (us', seen', dups')"
    using Cons.prems by (auto simp: Let_def split: if_splits)
  note IH = Cons.IH [OF rec]
  have t: "truthy ?u \<longleftrightarrow> ?u \<noteq> None"
    by (rule truthy_extract)
  have head: "us' ! length us = ?rec"
    using IH by (auto simp: nth_append)
  have old: "\<forall>k < length us. us' ! k = us ! k"
    using IH by (auto simp: nth_append)
  have s1: "seen \<subseteq> ?seen1" "dups \<subseteq> ?dups1"
    by auto
  have first_in: "toLowerCase16 u \<in> ?seen1" "toLowerCase16 u \<in> seen \<longrightarrow> toLowerCase16 u \<in> ?dups1"
    if "?u = Some u" for u
    using that t by auto
  show ?case
  proof (intro conjI allI impI)
    show "length us' = length us + length (line # ls)"
      using IH by simp
    show "seen \<subseteq> seen'" "dups \<subseteq> dups'"
      using IH s1 by blast+
  next
    fix k assume "k < length us"
    with old show "us' ! k = us ! k" by simp
  next
    fix k assume k: "k < length (line # ls)"
    show "username_pu (us' ! (length us + k)) = extractUsername (trim ((line # ls) ! k))"
      "originalValue (us' ! (length us + k)) = trim ((line # ls) ! k)"
      "index_pu (us' ! (length us + k)) = idx + k"
      "status_pu (us' ! (length us + k))
         = (if extractUsername (trim ((line # ls) ! k)) = None then UInvalid else UPending)"
      using k head IH t by (cases k; auto)+
  next
    fix k u
    assume k: "k < length (line # ls)" "extractUsername (trim ((line # ls) ! k)) = Some u"
    show "toLowerCase16 u \<in> seen'"
    proof (cases k)
      case 0
      with k first_in(1) [of u] IH show ?thesis by auto
    next
      case (Suc m)
      with k IH show ?thesis by auto
    qed
    show "toLowerCase16 u \<in> dups'" if "toLowerCase16 u \<in> seen"
    proof (cases k)
      case 0
      with k first_in(2) [of u] that IH show ?thesis by auto
    next
      case (Suc m)
      with k have m: "m < length ls" "extractUsername (trim (ls ! m)) = Some u" by auto
      from that s1 have "toLowerCase16 u \<in> ?seen1" by auto
      with IH m show ?thesis by blast
    qed
  next
    fix i j a b
    assume h: "i < j \<and> j < length (line # ls) \<and> extractUsername (trim ((line # ls) ! i)) = Some a
           \<and> extractUsername (trim ((line # ls) ! j)) = Some b \<and> toLowerCase16 a = toLowerCase16 b"
    then obtain m where j: "j = Suc m" "m < length ls" "extractUsername (trim (ls ! m)) = Some b"
      by (cases j) auto
    show "toLowerCase16 a \<in> dups'"
    proof (cases i)
      case 0
      with h have "?u = Some a" by simp
      from first_in(1) [OF this] h have "toLowerCase16 b \<in> ?seen1" by simp
      with IH j h show ?thesis by (metis (no_types, lifting))
    next
      case (Suc n)
      with h j have "n < m" "extractUsername (trim (ls ! n)) = Some a" by auto
      with IH j h show ?thesis by blast
    qed
  qed
qed

lemma dropWhile_Nil: "dropWhile P xs = [] \<longleftrightarrow> (\<forall>x \<in> set xs. P x)"
  by (induction xs) auto

lemma trim_Nil_iff: "trim s = [] \<longleftrightarrow> (\<forall>c \<in> set s. is_space c)"
proof
  assume "trim s = []"
  then have "dropWhile is_space (rev (dropWhile is_space s)) = []"
    by (simp add: trim_def)
  then have all: "\<forall>c \<in> set (dropWhile is_space s). is_space c"
    unfolding dropWhile_Nil by simp
  have "dropWhile is_space s = []"
  proof (rule ccontr)
    assume ne: "dropWhile is_space s \<noteq> []"
    then have "\<not> is_space (hd (dropWhile is_space s))"
      by (rule hd_dropWhile)
    moreover have "hd (dropWhile is_space s) \<in> set (dropWhile is_space s)"
      using ne by simp
    ultimately show False using all by blast
  qed
  then show "\<forall>c \<in> set s. is_space c"
    unfolding dropWhile_Nil .
next
  assume "\<forall>c \<in> set s. is_space c"
  then have d: "dropWhile is_space s = []"
    unfolding dropWhile_Nil .
  show "trim s = []"
    unfolding trim_def d by simp
qed

lemma set_splitLines: "l \<in> set (splitLines s) \<Longrightarrow> set l \<subseteq> set s"
proof (induction s arbitrary: l)
  case Nil
  then show ?case by simp
next
  case (Cons c cs)
  show ?case
  proof (cases "splitLines cs")
    case Nil
    with Cons.prems show ?thesis by (auto split: if_splits)
  next
    case (Cons a rest)
    have a: "set a \<subseteq> set cs" and rest: "\<And>l'. l' \<in> set rest \<Longrightarrow> set l' \<subseteq> set cs"
      using Cons.IH Cons by auto
    from Cons.prems Cons have "l = [] \<or> l = c # a \<or> l = a \<or> l \<in> set rest"
      by (auto split: if_splits)
    with a rest show ?thesis by auto
  qed
qed

lemma manualLines_blank: "trim s = [] \<Longrightarrow> manualLines s = []"
  unfolding manualLines_def filter_empty_conv trim_Nil_iff
  using set_splitLines [of _ s] by blast

lemma status_flagDuplicate:
  "status_pu (flagDuplicate dups u) =
     (if truthy (username_pu u) \<and> toLowerCase16 (the (username_pu u)) \<in> dups
      then UDuplicate else status_pu u)"
  "username_pu (flagDuplicate dups u) = username_pu u"
  by (simp_all add: flagDuplicate_def)

lemma not_submitted:
  assumes "\<forall>u \<in> set us. username_pu u = Some a \<longrightarrow> status_pu u \<noteq> UPending"
  shows "a \<notin> set (usernamesToValidate us)"
  using assms by (auto simp: usernamesToValidate_def truthy_def split: option.splits)

lemma processUsernames_length [simp]: "length (processUsernames rows) = length rows"
  using pass_invD(1) [OF pass_inv_final, of rows] by (simp add: processUsernames_def)

lemma processUsernames_username:
  "k < length rows \<Longrightarrow> username_pu (processUsernames rows ! k) = extractUsername (rows ! k)"
  using pass_invD(3) [OF pass_inv_final, of k rows] by (simp add: processUsernames_def)

lemma processUsernames_dup:
  assumes "k < length rows" and "k' < length rows" and "k' \<noteq> k" and "same_handle rows k k'"
  shows "status_pu (processUsernames rows ! k) = UDuplicate"
proof (rule ccontr)
  assume nd: "status_pu (processUsernames rows ! k) \<noteq> UDuplicate"
  from assms(4) obtain u where u: "extractUsername (rows ! k) = Some u"
    by (auto simp: same_handle_iff)
  from pass_invD(11) [OF pass_inv_final assms(1) u _ assms(2,3)] nd assms(4)
  show False by (simp add: processUsernames_def)
qed

lemma processUsernames_not_submitted:
  assumes "i < j" and "j < length rows"
    and "extractUsername (rows ! i) = Some a" and "extractUsername (rows ! j) = Some b"
    and "toLowerCase16 a = toLowerCase16 b"
    and c: "toLowerCase16 c = toLowerCase16 a"
  shows "c \<notin> set (usernamesToValidate (processUsernames rows))"
proof (rule not_submitted, intro ballI impI)
  fix u
  assume "u \<in> set (processUsernames rows)" and uc: "username_pu u = Some c"
  then obtain k where k: "k < length rows" "u = processUsernames rows ! k"
    by (auto simp: in_set_conv_nth)
  with uc have ex: "extractUsername (rows ! k) = Some c"
    by (simp add: processUsernames_username)
  have "\<exists>k' < length rows. k' \<noteq> k \<and> same_handle rows k k'"
  proof (cases "k = i")
    case True
    with assms ex show ?thesis
      by (intro exI [of _ j]) (auto simp: same_handle_iff)
  next
    case False
    with assms ex show ?thesis
      by (intro exI [of _ i]) (auto simp: same_handle_iff)
  qed
  then have "status_pu (processUsernames rows ! k) = UDuplicate"
    using processUsernames_dup [OF k(1)] by blast
  with k show "status_pu u \<noteq> UPending" by simp
qed

lemma star_run_consumes:
  assumes f: "\<And>st st'. st' \<in> set (f st) \<Longrightarrow>
      \<exists>pre. fst st = pre @ fst st' \<and> (\<forall>x \<in> set pre. P x)"
  shows "st' \<in> set (star_run n f st) \<Longrightarrow>
      \<exists>pre. fst st = pre @ fst st' \<and> (\<forall>x \<in> set pre. P x)"
proof (induction n arbitrary: st)
  case 0
  then show ?case by simp
next
  case (Suc n)
  from Suc.prems consider "st' = st"
    | m where "m \<in> set (f st)" "st' \<in> set (star_run n f m)"
    by auto
  then show ?case
  proof cases
    case 1
    then show ?thesis by simp
  next
    case 2
    from f [OF 2(1)] obtain p1 where p1: "fst st = p1 @ fst m" "\<forall>x \<in> set p1. P x"
      by blast
    from Suc.IH [OF 2(2)] obtain p2 where p2: "fst m = p2 @ fst st'" "\<forall>x \<in> set p2. P x"
      by blast
    from p1 p2 show ?thesis
      by (intro exI [of _ "p1 @ p2"]) auto
  qed
qed

lemma rx_run_consumes:
  "st' \<in> set (rx_run r st) \<Longrightarrow>
     \<exists>pre. fst st = pre @ fst st' \<and> (\<forall>x \<in> set pre. rx_accepts r x)"
proof (induction r arbitrary: st st')
  case Eps
  then show ?case by simp
next
  case (Lit c)
  then have "\<exists>x. fst st = x # fst st' \<and> lower_unit x = lower_unit c"
    by (cases "fst st") (auto split: if_splits)
  then obtain x where "fst st = x # fst st'" "lower_unit x = lower_unit c"
    by blast
  then show ?case
    by (intro exI [of _ "[x]"]) simp
next
  case (Cls k)
  then have "\<exists>x. fst st = x # fst st' \<and> in_class k x"
    by (cases "fst st") (auto split: if_splits)
  then obtain x where "fst st = x # fst st'" "in_class k x"
    by blast
  then show ?case
    by (intro exI [of _ "[x]"]) simp
next
  case (Seq a b)
  then obtain m where m: "m \<in> set (rx_run a st)" "st' \<in> set (rx_run b m)"
    by auto
  from Seq.IH(1) [OF m(1)] obtain p1 where
    p1: "fst st = p1 @ fst m" "\<forall>x \<in> set p1. rx_accepts a x"
    by blast
  from Seq.IH(2) [OF m(2)] obtain p2 where
    p2: "fst m = p2 @ fst st'" "\<forall>x \<in> set p2. rx_accepts b x"
    by blast
  from p1 p2 show ?case
    by (intro exI [of _ "p1 @ p2"]) auto
next
  case (Alt a b)
  then consider "st' \<in> set (rx_run a st)" | "st' \<in> set (rx_run b st)"
    by auto
  then show ?case
  proof cases
    case 1
    from Alt.IH(1) [OF 1] show ?thesis by auto
  next
    case 2
    from Alt.IH(2) [OF 2] show ?thesis by auto
  qed
next
  case (Opt a)
  then consider "st' \<in> set (rx_run a st)" | "st' = st"
    by auto
  then show ?case
  proof cases
    case 1
    from Opt.IH [OF 1] show ?thesis by simp
  next
    case 2
    then show ?thesis by simp
  qed
next
  case (Star a)
  from Star.prems have "st' \<in> set (star_run (length (fst st)) (rx_run a) st)"
    by simp
  from star_run_consumes [of "rx_run a" "rx_accepts a", OF Star.IH this]
  show ?case by simp
next
  case (Group a)
  then obtain m where m: "m \<in> set (rx_run a st)" "fst st' = fst m"
    by auto
  from Group.IH [OF m(1)] m(2) show ?case by simp
next
  case Eol
  then show ?case by (auto split: if_splits)
qed

lemma rx_handle_accepts: "rx_accepts rx_handle x \<Longrightarrow> is_alnum x \<or> x = 0x2D"
  by (auto simp: rx_handle_def)

lemma cleanUsername_ascii:
  assumes "cleanUsername s = Some u"
  shows "\<forall>x \<in> set u. is_alnum x \<or> x = 0x2D"
proof -
  from assms have "concat (map (rx_run Eol) (rx_run rx_handle (u, None))) \<noteq> []"
    by (auto simp: cleanUsername_def Let_def rx_test_at_start_def split: if_splits)
  then obtain m where m: "m \<in> set (rx_run rx_handle (u, None))" "fst m = []"
    by (auto split: if_splits)
  from rx_run_consumes [OF m(1)] m(2) have "\<forall>x \<in> set u. rx_accepts rx_handle x"
    by simp
  then show ?thesis
    using rx_handle_accepts by blast
qed

lemma tryPatterns_ascii:
  "tryPatterns ps v = Some (Some u) \<Longrightarrow> \<forall>x \<in> set u. is_alnum x \<or> x = 0x2D"
  by (induction ps) (auto dest: cleanUsername_ascii split: option.splits if_splits)

text \<open>
  A handle that \<open>extractUsername\<close> returns consists of ASCII letters, digits and hyphens,
  so lowering it touches the letters A to Z only.
\<close>

lemma extractUsername_ascii:
  "extractUsername v = Some u \<Longrightarrow> \<forall>x \<in> set u. is_alnum x \<or> x = 0x2D"
  by (auto simp: extractUsername_def Let_def dest: cleanUsername_ascii tryPatterns_ascii
      split: if_splits option.splits)

lemma repeat_append:
  assumes "k < length pre" and "\<exists>k' < length pre. k' \<noteq> k \<and> same_handle pre k k'"
  shows "\<exists>k' < length (pre @ [r]). k' \<noteq> k \<and> same_handle (pre @ [r]) k k'"
proof -
  from assms(2) obtain k' where k': "k' < length pre" "k' \<noteq> k" "same_handle pre k k'"
    by blast
  then have "same_handle (pre @ [r]) k k'"
    using assms(1) by (simp add: same_handle_append)
  with k' show ?thesis
    by (intro exI [of _ k']) simp
qed

lemma dup_invD:
  "dup_inv pre st \<Longrightarrow> k < length pre \<Longrightarrow> status_pu (users st ! k) = UDuplicate \<Longrightarrow>
   \<exists>k' < length pre. k' \<noteq> k \<and> same_handle pre k k'"
  by (simp add: dup_inv_def)

lemma dup_inv_appended:
  assumes d: "dup_inv pre st" and len: "length (users st) = length pre"
    and new: "status_pu new \<noteq> UDuplicate"
  shows "\<forall>k < length (pre @ [r]). status_pu ((users st @ [new]) ! k) = UDuplicate \<longrightarrow>
           (\<exists>k' < length (pre @ [r]). k' \<noteq> k \<and> same_handle (pre @ [r]) k k')"
proof (intro allI impI)
  fix k
  assume k: "k < length (pre @ [r])" "status_pu ((users st @ [new]) ! k) = UDuplicate"
  with new len have kn: "k < length pre"
    by (auto simp: nth_append less_Suc_eq)
  with k(2) len have "status_pu (users st ! k) = UDuplicate"
    by (simp add: nth_append)
  from repeat_append [OF kn dup_invD [OF d kn this]]
  show "\<exists>k' < length (pre @ [r]). k' \<noteq> k \<and> same_handle (pre @ [r]) k k'" .
qed

lemma dup_inv_step:
  assumes inv: "pass_inv pre st" and d: "dup_inv pre st"
  shows "dup_inv (pre @ [r]) (processRow (length pre) r st)"
proof (cases "extractUsername r")
  case None
  let ?new = "\<lparr>originalValue = r, username_pu = None, status_pu = UInvalid,
              error_pu = Some ''Invalid username format or not found'',
              index_pu = length pre\<rparr>"
  have "status_pu ?new \<noteq> UDuplicate"
    by simp
  from dup_inv_appended [OF d pass_invD(1) [OF inv] this, of r] show ?thesis
    unfolding dup_inv_def by (simp add: processRow_invalid [OF None])
next
  case (Some u)
  show ?thesis
  proof (cases "seenUsernames st (toLowerCase16 u)")
    case None
    let ?new = "\<lparr>originalValue = r, username_pu = Some u, status_pu = UPending,
              error_pu = None, index_pu = length pre\<rparr>"
    have "status_pu ?new \<noteq> UDuplicate"
      by simp
    from dup_inv_appended [OF d pass_invD(1) [OF inv] this, of r] show ?thesis
      unfolding dup_inv_def by (simp add: processRow_new [OF Some None])
  next
    case seen: (Some f)
    let ?n = "length pre"
    let ?new = "\<lparr>originalValue = r, username_pu = Some u, status_pu = UDuplicate,
              error_pu = Some ''Duplicate username found'', index_pu = ?n\<rparr>"
    let ?us = "(users st)[f := markDuplicate (users st ! f)]"
    note len = pass_invD(1) [OF inv]
    have f: "f < ?n"
      using pass_invD(7) [OF inv seen] .
    obtain v where v: "extractUsername (pre ! f) = Some v" "toLowerCase16 v = toLowerCase16 u"
      using pass_invD(8) [OF inv seen] by blast
    have "markFirst f (users st) = ?us"
      using pass_invD(2) [OF inv] f len by (intro markFirst_nth) simp_all
    then have st': "users (processRow ?n r st) = ?us @ [?new]"
      by (simp add: processRow_seen [OF Some seen])
    have lenus: "length ?us = ?n"
      using len by simp
    have stat: "status_pu (?us ! k) = status_pu (users st ! k)" if "k < ?n" "k \<noteq> f" for k
      using that len by simp
    have fn: "same_handle (pre @ [r]) f ?n"
      using f v Some by (simp add: same_handle_last)
    show ?thesis
      unfolding dup_inv_def st'
    proof (intro allI impI)
      fix k
      assume k: "k < length (pre @ [r])" "status_pu ((?us @ [?new]) ! k) = UDuplicate"
      show "\<exists>k' < length (pre @ [r]). k' \<noteq> k \<and> same_handle (pre @ [r]) k k'"
      proof (cases "k < ?n")
        case kn: True
        show ?thesis
        proof (cases "k = f")
          case True
          with fn f show ?thesis
            by (intro exI [of _ ?n]) simp
        next
          case False
          with k(2) kn lenus stat [of k] have "status_pu (users st ! k) = UDuplicate"
            by (simp add: nth_append)
          from repeat_append [OF kn dup_invD [OF d kn this]] show ?thesis .
        qed
      next
        case False
        with k(1) have "k = ?n" by simp
        with fn f show ?thesis
          by (intro exI [of _ f]) (simp add: same_handle_sym)
      qed
    qed
  qed
qed

lemma dup_inv_processRows:
  "pass_inv pre st \<Longrightarrow> dup_inv pre st \<Longrightarrow>
   dup_inv (pre @ rows) (processRows (length pre) rows st)"
proof (induction rows arbitrary: pre st)
  case Nil
  then show ?case by simp
next
  case (Cons r rows)
  from pass_inv_step [OF Cons.prems(1), of r]
  have p: "pass_inv (pre @ [r]) (processRow (length pre) r st)" .
  from dup_inv_step [OF Cons.prems, of r]
  have q: "dup_inv (pre @ [r]) (processRow (length pre) r st)" .
  from Cons.IH [OF p q] show ?case by simp
qed

lemma dup_inv_final: "dup_inv rows (processRows 0 rows pass_start)"
  using dup_inv_processRows [OF pass_inv_start, of rows] by (simp add: dup_inv_def)

lemma repeated_Some: "repeated rows k \<Longrightarrow> extractUsername (rows ! k) \<noteq> None"
  by (auto simp: repeated_iff same_handle_iff)

lemma processUsernames_status:
  assumes "k < length rows"
  shows "status_pu (processUsernames rows ! k) =
     (if extractUsername (rows ! k) = None then UInvalid
      else if repeated rows k then UDuplicate else UPending)"
proof (cases "extractUsername (rows ! k)")
  case None
  from pass_invD(5) [OF pass_inv_final assms None] None show ?thesis
    by (simp add: processUsernames_def)
next
  case (Some u)
  show ?thesis
  proof (cases "repeated rows k")
    case True
    then obtain k' where "k' < length rows" "k' \<noteq> k" "same_handle rows k k'"
      by (auto simp: repeated_iff)
    from processUsernames_dup [OF assms this] Some True show ?thesis
      by simp
  next
    case False
    have "status_pu (processUsernames rows ! k) \<noteq> UDuplicate"
    proof
      assume "status_pu (processUsernames rows ! k) = UDuplicate"
      then have "status_pu (users (processRows 0 rows pass_start) ! k) = UDuplicate"
        by (simp add: processUsernames_def)
      from dup_invD [OF dup_inv_final assms this] False show False
        by (simp add: repeated_iff)
    qed
    with pass_invD(6) [OF pass_inv_final assms Some] Some False show ?thesis
      by (simp add: processUsernames_def)
  qed
qed

text \<open>
  What is submitted, for records that carry the handles of the rows and are \<open>pending\<close>
  exactly on the rows that have a handle and are not repeated.
\<close>

lemma submitted_eq:
  assumes len: "length us = length rows"
    and un: "\<And>k. k < length rows \<Longrightarrow> username_pu (us ! k) = extractUsername (rows ! k)"
    and st: "\<And>k. k < length rows \<Longrightarrow> status_pu (us ! k) =
       (if extractUsername (rows ! k) = None then UInvalid
        else if repeated rows k then UDuplicate else UPending)"
  shows "usernamesToValidate us =
     map (\<lambda>i. the (extractUsername (rows ! i)))
       (filter (\<lambda>i. extractUsername (rows ! i) \<noteq> None \<and> \<not> repeated rows i)
          [0..<length rows])"
proof -
  let ?Q = "\<lambda>u. status_pu u = UPending \<and> truthy (username_pu u)"
  let ?P = "\<lambda>i. extractUsername (rows ! i) \<noteq> None \<and> \<not> repeated rows i"
  have us: "us = map ((!) us) [0..<length rows]"
    using len map_nth [of us] by simp
  have "filter ?Q (map ((!) us) [0..<length rows])
      = map ((!) us) (filter (?Q \<circ> (!) us) [0..<length rows])"
    by (rule filter_map)
  also have "filter (?Q \<circ> (!) us) [0..<length rows] = filter ?P [0..<length rows]"
    by (rule filter_cong) (auto simp: un st truthy_extract)
  finally have f: "filter ?Q us = map ((!) us) (filter ?P [0..<length rows])"
    using us by simp
  have m: "map (\<lambda>u. the (username_pu u)) (filter ?Q us)
      = map (\<lambda>i. the (extractUsername (rows ! i))) (filter ?P [0..<length rows])"
    unfolding f by (simp add: un)
  have "\<forall>n \<in> set (map (\<lambda>i. the (extractUsername (rows ! i))) (filter ?P [0..<length rows])).
      n \<noteq> []"
    using extractUsername_Some by auto
  then have "filter (\<lambda>n. n \<noteq> [])
      (map (\<lambda>i. the (extractUsername (rows ! i))) (filter ?P [0..<length rows]))
      = map (\<lambda>i. the (extractUsername (rows ! i))) (filter ?P [0..<length rows])"
    by (intro filter_True) simp
  with m show ?thesis
    by (simp add: usernamesToValidate_def)
qed

lemma repeated_not_submitted:
  assumes "k < length rows" and "repeated rows k"
  shows "the (extractUsername (rows ! k)) \<notin>
     set (map (\<lambda>i. the (extractUsername (rows ! i)))
       (filter (\<lambda>i. extractUsername (rows ! i) \<noteq> None \<and> \<not> repeated rows i)
          [0..<length rows]))"
proof
  assume "the (extractUsername (rows ! k)) \<in>
     set (map (\<lambda>i. the (extractUsername (rows ! i)))
       (filter (\<lambda>i. extractUsername (rows ! i) \<noteq> None \<and> \<not> repeated rows i)
          [0..<length rows]))"
  then obtain i where i: "i < length rows" "extractUsername (rows ! i) \<noteq> None"
    "\<not> repeated rows i" "the (extractUsername (rows ! k)) = the (extractUsername (rows ! i))"
    by auto
  from repeated_Some [OF assms(2)] i(2,4) have "same_handle rows i k"
    by (auto simp: same_handle_iff)
  moreover from assms(2) i(3) have "k \<noteq> i"
    by auto
  ultimately have "repeated rows i"
    using assms(1) by (auto simp: repeated_iff)
  with i(3) show False ..
qed

lemma manualPass_conv:
  assumes "manualPass idx ls (us, seen, dups) = (us', seen', dups')"
  shows "dups' \<subseteq> dups \<union>
     {l. \<exists>j < length ls. \<exists>u. extractUsername (trim (ls ! j)) = Some u \<and> toLowerCase16 u = l
           \<and> (l \<in> seen
               \<or> (\<exists>i < j. \<exists>a. extractUsername (trim (ls ! i)) = Some a
                               \<and> toLowerCase16 a = l))}"
  using assms
proof (induction ls arbitrary: idx us seen dups)
  case Nil
  then show ?case by simp
next
  case (Cons line ls)
  let ?o = "trim line"
  let ?u = "extractUsername ?o"
  let ?rec = "\<lparr>originalValue = ?o, username_pu = ?u,
                status_pu = (if truthy ?u then UPending else UInvalid),
                error_pu = (if truthy ?u then None else Some ''Invalid username format''),
                index_pu = idx\<rparr>"
  let ?seen1 = "if truthy ?u \<and> toLowerCase16 (the ?u) \<notin> seen
                then insert (toLowerCase16 (the ?u)) seen else seen"
  let ?dups1 = "if truthy ?u \<and> toLowerCase16 (the ?u) \<in> seen
                then insert (toLowerCase16 (the ?u)) dups else dups"
  have rec: "manualPass (Suc idx) ls (us @ [?rec], ?seen1, ?dups1) = (us', seen', dups')"
    using Cons.prems by (auto simp: Let_def split: if_splits)
  note IH = Cons.IH [OF rec]
  have t: "truthy ?u \<longleftrightarrow> ?u \<noteq> None"
    by (rule truthy_extract)
  show ?case
  proof
    fix l
    assume l: "l \<in> dups'"
    have found: "l \<in> dups \<union>
       {l. \<exists>j < length (line # ls). \<exists>u. extractUsername (trim ((line # ls) ! j)) = Some u
             \<and> toLowerCase16 u = l
             \<and> (l \<in> seen
                 \<or> (\<exists>i < j. \<exists>a. extractUsername (trim ((line # ls) ! i)) = Some a
                                 \<and> toLowerCase16 a = l))}"
      if "j' < length (line # ls)" "extractUsername (trim ((line # ls) ! j')) = Some u'"
        "toLowerCase16 u' = l"
        "l \<in> seen \<or> (\<exists>i < j'. \<exists>a. extractUsername (trim ((line # ls) ! i)) = Some a
                                 \<and> toLowerCase16 a = l)"
      for j' u'
      using that by blast
    from l IH consider (a) "l \<in> ?dups1"
      | (b) j u where "j < length ls" "extractUsername (trim (ls ! j)) = Some u"
          "toLowerCase16 u = l"
          "l \<in> ?seen1 \<or> (\<exists>i < j. \<exists>a. extractUsername (trim (ls ! i)) = Some a
                                 \<and> toLowerCase16 a = l)"
      by blast
    then show "l \<in> dups \<union>
       {l. \<exists>j < length (line # ls). \<exists>u. extractUsername (trim ((line # ls) ! j)) = Some u
             \<and> toLowerCase16 u = l
             \<and> (l \<in> seen
                 \<or> (\<exists>i < j. \<exists>a. extractUsername (trim ((line # ls) ! i)) = Some a
                                 \<and> toLowerCase16 a = l))}"
    proof cases
      case a
      show ?thesis
      proof (cases "l \<in> dups")
        case True
        then show ?thesis by simp
      next
        case False
        with a have h: "truthy ?u" "l = toLowerCase16 (the ?u)" "l \<in> seen"
          by (auto split: if_splits)
        with t obtain u0 where u0: "?u = Some u0"
          by auto
        show ?thesis
          by (rule found [of 0 u0]) (use h u0 in simp_all)
      qed
    next
      case b
      from b(4) consider "l \<in> seen" | "l \<notin> seen" "l \<in> ?seen1"
        | i a where "i < j" "extractUsername (trim (ls ! i)) = Some a" "toLowerCase16 a = l"
        by blast
      then show ?thesis
      proof cases
        case 1
        show ?thesis
          by (rule found [of "Suc j" u]) (use b 1 in simp_all)
      next
        case 2
        then have h: "truthy ?u" "l = toLowerCase16 (the ?u)"
          by (auto split: if_splits)
        with t obtain u0 where u0: "?u = Some u0"
          by auto
        have "\<exists>i < Suc j. \<exists>a. extractUsername (trim ((line # ls) ! i)) = Some a
                                 \<and> toLowerCase16 a = l"
          by (intro exI [of _ 0]) (use h u0 in simp)
        then show ?thesis
          by (intro found [of "Suc j" u]) (use b in simp_all)
      next
        case 3
        have "\<exists>i < Suc j. \<exists>a. extractUsername (trim ((line # ls) ! i)) = Some a
                                 \<and> toLowerCase16 a = l"
          by (intro exI [of _ "Suc i"]) (use 3 in simp)
        then show ?thesis
          by (intro found [of "Suc j" u]) (use b in simp_all)
      qed
    qed
  qed
qed

lemma manual_classified:
  assumes rows: "map trim (manualLines manualInput) = rows" and ne: "rows \<noteq> []"
  shows "\<exists>us. processManualInput manualInput = Some us \<and> length us = length rows
     \<and> (\<forall>k < length rows.
           username_pu (us ! k) = extractUsername (rows ! k)
           \<and> status_pu (us ! k) =
               (if extractUsername (rows ! k) = None then UInvalid
                else if repeated rows k then UDuplicate else UPending))"
proof -
  let ?ls = "manualLines manualInput"
  have len: "length ?ls = length rows"
    using rows by (metis length_map)
  have at: "trim (?ls ! k) = rows ! k" if "k < length rows" for k
    using that rows len by (metis nth_map)
  obtain us' seen' dups' where run: "manualPass 0 ?ls ([], {}, {}) = (us', seen', dups')"
    by (cases "manualPass 0 ?ls ([], {}, {})")
  note p = manualPass_props [OF run]
  note q = manualPass_conv [OF run]
  have "?ls \<noteq> []"
    using len ne by auto
  then have "trim manualInput \<noteq> []"
    using manualLines_blank by blast
  then have res: "processManualInput manualInput = Some (map (flagDuplicate dups') us')"
    by (simp add: processManualInput_def run)
  have lus: "length us' = length rows"
    using p len by simp
  have un: "username_pu (us' ! k) = extractUsername (rows ! k)" if "k < length rows" for k
    using p that len at [OF that] by simp
  have st0: "status_pu (us' ! k) = (if extractUsername (rows ! k) = None then UInvalid else UPending)"
    if "k < length rows" for k
    using p that len at [OF that] by simp
  have fwd: "toLowerCase16 a \<in> dups'"
    if "i < j" "j < length rows" "extractUsername (rows ! i) = Some a"
      "extractUsername (rows ! j) = Some b" "toLowerCase16 a = toLowerCase16 b" for i j a b
  proof -
    from that have i: "i < length rows" by simp
    have "i < j \<and> j < length ?ls \<and> extractUsername (trim (?ls ! i)) = Some a
           \<and> extractUsername (trim (?ls ! j)) = Some b \<and> toLowerCase16 a = toLowerCase16 b"
      using that len at [OF i] at [OF that(2)] by simp
    with p show ?thesis by blast
  qed
  have dup: "toLowerCase16 u \<in> dups' \<longleftrightarrow> repeated rows k"
    if k: "k < length rows" and u: "extractUsername (rows ! k) = Some u" for k u
  proof
    assume "repeated rows k"
    then obtain k' b where k': "k' < length rows" "k' \<noteq> k"
      "extractUsername (rows ! k') = Some b" "toLowerCase16 u = toLowerCase16 b"
      using u by (auto simp: repeated_iff same_handle_iff)
    show "toLowerCase16 u \<in> dups'"
    proof (cases "k < k'")
      case True
      from fwd [OF True k'(1) u k'(3,4)] show ?thesis .
    next
      case False
      with k'(2) have "k' < k" by simp
      from fwd [OF this k k'(3) u] k'(4) show ?thesis by simp
    qed
  next
    assume "toLowerCase16 u \<in> dups'"
    with q obtain j b i a where j: "j < length ?ls" "extractUsername (trim (?ls ! j)) = Some b"
      "toLowerCase16 b = toLowerCase16 u" "i < j" "extractUsername (trim (?ls ! i)) = Some a"
      "toLowerCase16 a = toLowerCase16 u"
      by auto
    from j(1,4) len have jr: "j < length rows" and ir: "i < length rows"
      by simp_all
    from j(2,5) at [OF jr] at [OF ir] have ex: "extractUsername (rows ! j) = Some b"
      "extractUsername (rows ! i) = Some a"
      by simp_all
    show "repeated rows k"
    proof (cases "k = j")
      case True
      with j(4) have "i \<noteq> k" by simp
      moreover have "same_handle rows k i"
        using u ex(2) j(6) by (simp add: same_handle_iff)
      ultimately show ?thesis
        using ir by (auto simp: repeated_iff)
    next
      case False
      then have "j \<noteq> k" by simp
      moreover have "same_handle rows k j"
        using u ex(1) j(3) by (simp add: same_handle_iff)
      ultimately show ?thesis
        using jr by (auto simp: repeated_iff)
    qed
  qed
  have st: "status_pu (map (flagDuplicate dups') us' ! k) =
      (if extractUsername (rows ! k) = None then UInvalid
       else if repeated rows k then UDuplicate else UPending)"
    if k: "k < length rows" for k
  proof (cases "extractUsername (rows ! k)")
    case None
    with k lus un [OF k] st0 [OF k] show ?thesis
      by (simp add: status_flagDuplicate truthy_def)
  next
    case (Some u)
    from extractUsername_Some [OF Some] have "truthy (Some u)"
      by (simp add: truthy_def)
    with k lus un [OF k] st0 [OF k] Some dup [OF k Some] show ?thesis
      by (simp add: status_flagDuplicate)
  qed
  have "username_pu (map (flagDuplicate dups') us' ! k) = extractUsername (rows ! k)"
    if "k < length rows" for k
    using that lus un [OF that] by (simp add: status_flagDuplicate)
  with res lus st show ?thesis
    by simp
qed

lemmas page_eval = extractUsername_def cleanUsername_def trim_def is_space_def js_def Let_def
  githubUrlPatterns_def rx_scheme_def rx_handle_def rx_test_at_start_def strip_dot_git_def
  strip_prefix_tag_def strip_slashes_def toLowerCase16_def lower_unit_def is_alnum_def

lemma extract_scenario:
  "extractUsername (js ''octocat'') = Some (js ''octocat'')"
  "extractUsername (js ''OCTOCAT'') = Some (js ''OCTOCAT'')"
  "extractUsername (js ''this_is_way_too_long_to_be_a_valid_handle_over_39_chars'') = None"
  by (simp_all add: page_eval)

lemma lower_scenario:
  "toLowerCase16 (js ''OCTOCAT'') = js ''octocat''"
  "toLowerCase16 (js ''octocat'') = js ''octocat''"
  by (simp_all add: toLowerCase16_def lower_unit_def js_def)

lemma lines_scenario: "map trim (manualLines scenario_text) = scenario_rows"
  by (simp add: scenario_text_def scenario_rows_def manualLines_def trim_def is_space_def js_def)

lemma extract_mixed:
  "extractUsername (mixed_rows ! 0) = Some (js ''octocat'')"
  "extractUsername (mixed_rows ! 1) = Some (js ''torvalds'')"
  "extractUsername (mixed_rows ! 2) = Some (js ''OctoCat'')"
  "extractUsername (mixed_rows ! 3) = None"
  "extractUsername (mixed_rows ! Suc 0) = Some (js ''torvalds'')"
  by (simp_all add: mixed_rows_def page_eval)

lemma extract_examples:
  "extractUsername (js ''GitHub:octocat/'') = Some (js ''octocat'')"
  "extractUsername (js ''gh:octocat'') = Some (js ''octocat'')"
  "extractUsername (js ''GIT:octocat'') = Some (js ''octocat'')"
  "extractUsername (js ''gi:octocat'') = None"
  "extractUsername ([0x212A] @ js ''octocat'') = None"
  by (simp_all add: page_eval)

lemma lines_mixed: "map trim (manualLines mixed_text) = mixed_rows"
  by (simp add: mixed_text_def mixed_rows_def manualLines_def trim_def is_space_def js_def)

lemma repeated_mixed:
  "repeated mixed_rows 0" "\<not> repeated mixed_rows 1" "repeated mixed_rows 2"
  "\<not> repeated mixed_rows 3" "\<not> repeated mixed_rows (Suc 0)"
proof -
  have len: "length mixed_rows = 4"
    by (simp add: mixed_rows_def)
  have idx: "{0..<4::nat} = {0, 1, 2, 3}"
    by auto
  have low: "toLowerCase16 (js ''octocat'') = toLowerCase16 (js ''OctoCat'')"
    "toLowerCase16 (js ''octocat'') \<noteq> toLowerCase16 (js ''torvalds'')"
    "toLowerCase16 (js ''torvalds'') \<noteq> toLowerCase16 (js ''OctoCat'')"
    by (simp_all add: toLowerCase16_def lower_unit_def js_def)
  show "repeated mixed_rows 0" "\<not> repeated mixed_rows 1" "repeated mixed_rows 2"
    "\<not> repeated mixed_rows 3" "\<not> repeated mixed_rows (Suc 0)"
    using low by (simp_all add: repeated_def len idx same_handle_def extract_mixed)
qed

text \<open>
  C6. Two rows have the same handle when the handles extracted from them are equal once
  lowered, that is, equal up to the case of their letters. For every row of a list: its
  record carries the handle extracted from it and is \<open>invalid\<close> if there is none,
  \<open>duplicate\<close> if another row of the list, earlier or later, has the same handle, and
  \<open>pending\<close> otherwise. So the first occurrence of a handle is flagged \<open>duplicate\<close>
  together with the later ones, and a handle that occurs once is not flagged. What is
  submitted for validation is the handles of the rows that have one and are not
  repeated, in the order of the rows; the handle of a repeated row is not among them.
  This holds for the records built from a column (\<open>processUsernames\<close>) and for those
  built from typed lines (\<open>processManualInput\<close>).
\<close>

theorem duplicates_flag_both_occurrences:
  assumes "k < length rows"
  shows "length (processUsernames rows) = length rows
     \<and> username_pu (processUsernames rows ! k) = extractUsername (rows ! k)
     \<and> status_pu (processUsernames rows ! k) =
         (if extractUsername (rows ! k) = None then UInvalid
          else if repeated rows k then UDuplicate else UPending)
     \<and> usernamesToValidate (processUsernames rows) =
         map (\<lambda>i. the (extractUsername (rows ! i)))
           (filter (\<lambda>i. extractUsername (rows ! i) \<noteq> None \<and> \<not> repeated rows i)
              [0..<length rows])
     \<and> (repeated rows k \<longrightarrow>
           the (extractUsername (rows ! k)) \<notin> set (usernamesToValidate (processUsernames rows)))
     \<and> (\<forall>manualInput. map trim (manualLines manualInput) = rows \<longrightarrow>
          (\<exists>us. processManualInput manualInput = Some us \<and> length us = length rows
             \<and> username_pu (us ! k) = extractUsername (rows ! k)
             \<and> status_pu (us ! k) =
                 (if extractUsername (rows ! k) = None then UInvalid
                  else if repeated rows k then UDuplicate else UPending)
             \<and> usernamesToValidate us =
                 map (\<lambda>i. the (extractUsername (rows ! i)))
                   (filter (\<lambda>i. extractUsername (rows ! i) \<noteq> None \<and> \<not> repeated rows i)
                      [0..<length rows])
             \<and> (repeated rows k \<longrightarrow>
                   the (extractUsername (rows ! k)) \<notin> set (usernamesToValidate us))))"
proof (intro conjI allI impI)
  show "length (processUsernames rows) = length rows"
    by simp
  show "username_pu (processUsernames rows ! k) = extractUsername (rows ! k)"
    using assms by (rule processUsernames_username)
  show "status_pu (processUsernames rows ! k) =
         (if extractUsername (rows ! k) = None then UInvalid
          else if repeated rows k then UDuplicate else UPending)"
    using assms by (rule processUsernames_status)
  show sub: "usernamesToValidate (processUsernames rows) =
         map (\<lambda>i. the (extractUsername (rows ! i)))
           (filter (\<lambda>i. extractUsername (rows ! i) \<noteq> None \<and> \<not> repeated rows i)
              [0..<length rows])"
    by (rule submitted_eq) (simp_all add: processUsernames_username processUsernames_status)
  show "the (extractUsername (rows ! k)) \<notin> set (usernamesToValidate (processUsernames rows))"
    if "repeated rows k"
    unfolding sub using assms that by (rule repeated_not_submitted)
next
  fix manualInput
  assume rows: "map trim (manualLines manualInput) = rows"
  from assms have "rows \<noteq> []"
    by auto
  from manual_classified [OF rows this] obtain us where
    us: "processManualInput manualInput = Some us" "length us = length rows"
    "\<And>k. k < length rows \<Longrightarrow> username_pu (us ! k) = extractUsername (rows ! k)"
    "\<And>k. k < length rows \<Longrightarrow> status_pu (us ! k) =
               (if extractUsername (rows ! k) = None then UInvalid
                else if repeated rows k then UDuplicate else UPending)"
    by blast
  have sub: "usernamesToValidate us =
         map (\<lambda>i. the (extractUsername (rows ! i)))
           (filter (\<lambda>i. extractUsername (rows ! i) \<noteq> None \<and> \<not> repeated rows i)
              [0..<length rows])"
    using us(2,3,4) by (rule submitted_eq)
  have "the (extractUsername (rows ! k)) \<notin> set (usernamesToValidate us)"
    if "repeated rows k"
    unfolding sub using assms that by (rule repeated_not_submitted)
  with us(1,2) us(3) [OF assms] us(4) [OF assms] sub
  show "\<exists>us. processManualInput manualInput = Some us \<and> length us = length rows
             \<and> username_pu (us ! k) = extractUsername (rows ! k)
             \<and> status_pu (us ! k) =
                 (if extractUsername (rows ! k) = None then UInvalid
                  else if repeated rows k then UDuplicate else UPending)
             \<and> usernamesToValidate us =
                 map (\<lambda>i. the (extractUsername (rows ! i)))
                   (filter (\<lambda>i. extractUsername (rows ! i) \<noteq> None \<and> \<not> repeated rows i)
                      [0..<length rows])
             \<and> (repeated rows k \<longrightarrow>
                   the (extractUsername (rows ! k)) \<notin> set (usernamesToValidate us))"
    by blast
qed

lemma mixed_submitted:
  "map (\<lambda>i. the (extractUsername (mixed_rows ! i)))
     (filter (\<lambda>i. extractUsername (mixed_rows ! i) \<noteq> None \<and> \<not> repeated mixed_rows i)
        [0..<length mixed_rows]) = [js ''torvalds'']"
proof -
  have len: "[0..<length mixed_rows] = [0, 1, 2, 3]"
    by (simp add: mixed_rows_def upt_rec_numeral)
  show ?thesis
    unfolding len by (simp add: extract_mixed repeated_mixed)
qed

theorem duplicates_flag_both_occurrences_witness:
  "(0::nat) < length mixed_rows \<and> 1 < length mixed_rows \<and> 2 < length mixed_rows
   \<and> 3 < length mixed_rows
   \<and> map trim (manualLines mixed_text) = mixed_rows
   \<and> repeated mixed_rows 0 \<and> \<not> repeated mixed_rows 1 \<and> repeated mixed_rows 2
   \<and> username_pu (processUsernames mixed_rows ! 0) = Some (js ''octocat'')
   \<and> username_pu (processUsernames mixed_rows ! 2) = Some (js ''OctoCat'')
   \<and> status_pu (processUsernames mixed_rows ! 0) = UDuplicate
   \<and> status_pu (processUsernames mixed_rows ! 1) = UPending
   \<and> status_pu (processUsernames mixed_rows ! 2) = UDuplicate
   \<and> status_pu (processUsernames mixed_rows ! 3) = UInvalid
   \<and> usernamesToValidate (processUsernames mixed_rows) = [js ''torvalds'']
   \<and> (\<exists>us. processManualInput mixed_text = Some us \<and> length us = length mixed_rows
         \<and> status_pu (us ! 0) = UDuplicate \<and> status_pu (us ! 1) = UPending
         \<and> status_pu (us ! 2) = UDuplicate \<and> status_pu (us ! 3) = UInvalid
         \<and> usernamesToValidate us = [js ''torvalds''])"
proof -
  have h: "(0::nat) < length mixed_rows" "1 < length mixed_rows" "2 < length mixed_rows"
    "3 < length mixed_rows"
    by (simp_all add: mixed_rows_def)
  note ev = extract_mixed repeated_mixed mixed_submitted
  note t0 = duplicates_flag_both_occurrences [OF h(1)]
  note t1 = duplicates_flag_both_occurrences [OF h(2)]
  note t2 = duplicates_flag_both_occurrences [OF h(3)]
  note t3 = duplicates_flag_both_occurrences [OF h(4)]
  from t0 have c0: "username_pu (processUsernames mixed_rows ! 0) = extractUsername (mixed_rows ! 0)"
    "status_pu (processUsernames mixed_rows ! 0) =
       (if extractUsername (mixed_rows ! 0) = None then UInvalid
        else if repeated mixed_rows 0 then UDuplicate else UPending)"
    "usernamesToValidate (processUsernames mixed_rows) =
       map (\<lambda>i. the (extractUsername (mixed_rows ! i)))
         (filter (\<lambda>i. extractUsername (mixed_rows ! i) \<noteq> None \<and> \<not> repeated mixed_rows i)
            [0..<length mixed_rows])"
    by blast+
  from t1 have c1: "status_pu (processUsernames mixed_rows ! 1) =
       (if extractUsername (mixed_rows ! 1) = None then UInvalid
        else if repeated mixed_rows 1 then UDuplicate else UPending)"
    by blast
  from t2 have c2: "username_pu (processUsernames mixed_rows ! 2) = extractUsername (mixed_rows ! 2)"
    "status_pu (processUsernames mixed_rows ! 2) =
       (if extractUsername (mixed_rows ! 2) = None then UInvalid
        else if repeated mixed_rows 2 then UDuplicate else UPending)"
    by blast+
  from t3 have c3: "status_pu (processUsernames mixed_rows ! 3) =
       (if extractUsername (mixed_rows ! 3) = None then UInvalid
        else if repeated mixed_rows 3 then UDuplicate else UPending)"
    by blast
  have col: "username_pu (processUsernames mixed_rows ! 0) = Some (js ''octocat'')"
    "username_pu (processUsernames mixed_rows ! 2) = Some (js ''OctoCat'')"
    "status_pu (processUsernames mixed_rows ! 0) = UDuplicate"
    "status_pu (processUsernames mixed_rows ! 1) = UPending"
    "status_pu (processUsernames mixed_rows ! 2) = UDuplicate"
    "status_pu (processUsernames mixed_rows ! 3) = UInvalid"
    "usernamesToValidate (processUsernames mixed_rows) = [js ''torvalds'']"
    unfolding c0 c1 c2 c3 mixed_submitted by (simp_all add: extract_mixed repeated_mixed)
  from t0 lines_mixed obtain us where us: "processManualInput mixed_text = Some us"
    "length us = length mixed_rows"
    "status_pu (us ! 0) =
       (if extractUsername (mixed_rows ! 0) = None then UInvalid
        else if repeated mixed_rows 0 then UDuplicate else UPending)"
    "usernamesToValidate us =
       map (\<lambda>i. the (extractUsername (mixed_rows ! i)))
         (filter (\<lambda>i. extractUsername (mixed_rows ! i) \<noteq> None \<and> \<not> repeated mixed_rows i)
            [0..<length mixed_rows])"
    by blast
  from t1 lines_mixed us(1) have s1: "status_pu (us ! 1) =
       (if extractUsername (mixed_rows ! 1) = None then UInvalid
        else if repeated mixed_rows 1 then UDuplicate else UPending)"
    by auto
  from t2 lines_mixed us(1) have s2: "status_pu (us ! 2) =
       (if extractUsername (mixed_rows ! 2) = None then UInvalid
        else if repeated mixed_rows 2 then UDuplicate else UPending)"
    by auto
  from t3 lines_mixed us(1) have s3: "status_pu (us ! 3) =
       (if extractUsername (mixed_rows ! 3) = None then UInvalid
        else if repeated mixed_rows 3 then UDuplicate else UPending)"
    by auto
  have man: "status_pu (us ! 0) = UDuplicate" "status_pu (us ! 1) = UPending"
    "status_pu (us ! 2) = UDuplicate" "status_pu (us ! 3) = UInvalid"
    "usernamesToValidate us = [js ''torvalds'']"
    unfolding us(3,4) s1 s2 s3 mixed_submitted by (simp_all add: extract_mixed repeated_mixed)
  have "\<exists>us. processManualInput mixed_text = Some us \<and> length us = length mixed_rows
         \<and> status_pu (us ! 0) = UDuplicate \<and> status_pu (us ! 1) = UPending
         \<and> status_pu (us ! 2) = UDuplicate \<and> status_pu (us ! 3) = UInvalid
         \<and> usernamesToValidate us = [js ''torvalds'']"
    using us(1,2) man by blast
  with h lines_mixed repeated_mixed(1,2,3) col show ?thesis
    by blast
qed

lemma js_Nil_iff [simp]: "js s = [] \<longleftrightarrow> s = []"
  by (simp add: js_def)

lemma scenario_first_pass:
  "map status_pu (users (processRows 0 [js ''octocat''] pass_start)) = [UPending]"
  by (simp add: processRow_def pass_start_def extract_scenario lower_scenario truthy_def Let_def)

lemma scenario_run:
  "map status_pu (processUsernames scenario_rows) = [UDuplicate, UDuplicate, UInvalid]"
  "map username_pu (processUsernames scenario_rows)
     = [Some (js ''octocat''), Some (js ''OCTOCAT''), None]"
  "usernamesToValidate (processUsernames scenario_rows) = []"
  by (simp_all add: processUsernames_def scenario_rows_def processRow_def pass_start_def
      extract_scenario lower_scenario truthy_def markDuplicate_def usernamesToValidate_def
      Let_def)

lemma manual_scenario:
  "map_option (map status_pu) (processManualInput scenario_text)
     = Some [UDuplicate, UDuplicate, UInvalid]"
proof -
  have blank: "trim scenario_text \<noteq> []"
    by (simp add: scenario_text_def trim_def is_space_def js_def)
  have ls: "manualLines scenario_text =
      [js ''octocat'', js ''OCTOCAT'',
       js ''this_is_way_too_long_to_be_a_valid_handle_over_39_chars'']"
    by (simp add: scenario_text_def manualLines_def trim_def is_space_def js_def)
  have tr: "trim (js ''octocat'') = js ''octocat''" "trim (js ''OCTOCAT'') = js ''OCTOCAT''"
    "trim (js ''this_is_way_too_long_to_be_a_valid_handle_over_39_chars'')
       = js ''this_is_way_too_long_to_be_a_valid_handle_over_39_chars''"
    by (simp_all add: trim_def is_space_def js_def)
  show ?thesis
    using blank
    by (simp add: processManualInput_def ls tr extract_scenario lower_scenario truthy_def
        flagDuplicate_def Let_def)
qed

text \<open>
  C7 as stated fails on its first record: after the three values of the scenario have
  been processed, the record of \<open>octocat\<close> is \<open>duplicate\<close>, not \<open>pending\<close>, and no handle
  is left to submit, so it never becomes \<open>valid\<close>.
\<close>

theorem scenario_first_record_is_duplicate:
  "status_pu (processUsernames scenario_rows ! 0) = UDuplicate
   \<and> status_pu (processUsernames scenario_rows ! 0) \<noteq> UPending
   \<and> usernamesToValidate (processUsernames scenario_rows) = []"
proof -
  have "map status_pu (processUsernames scenario_rows) ! 0 = UDuplicate"
    by (simp add: scenario_run)
  then have "status_pu (processUsernames scenario_rows ! 0) = UDuplicate"
    by (simp add: scenario_rows_def)
  then show ?thesis
    by (simp add: scenario_run)
qed

text \<open>
  C7, as the page has it. The first value alone gives a \<open>pending\<close> record. With all
  three values: the record of \<open>octocat\<close> is flagged \<open>duplicate\<close> when \<open>OCTOCAT\<close> is read,
  the record of \<open>OCTOCAT\<close> is \<open>duplicate\<close>, the third value yields no handle and its
  record is \<open>invalid\<close>; no handle is submitted for validation. Typed as three lines, the
  values are classified the same way.
\<close>

theorem scenario_classification:
  "map status_pu (users (processRows 0 [js ''octocat''] pass_start)) = [UPending]
   \<and> map status_pu (processUsernames scenario_rows) = [UDuplicate, UDuplicate, UInvalid]
   \<and> map username_pu (processUsernames scenario_rows)
        = [Some (js ''octocat''), Some (js ''OCTOCAT''), None]
   \<and> usernamesToValidate (processUsernames scenario_rows) = []
   \<and> map_option (map status_pu) (processManualInput scenario_text)
        = Some [UDuplicate, UDuplicate, UInvalid]"
  using scenario_first_pass scenario_run manual_scenario by simp

subsection \<open>The single-resource engagement check\<close>

lemma checkUsersEngagementREST_eq:
  "checkUsersEngagementREST env unames targetOwner targetRepo token =
     map (\<lambda>(i, u). let r = checkUserEngagement targetOwner targetRepo
                                (starred_api env i u) (repos_api env i u)
                    in \<lparr>hasStarred = hasStarred r, hasForked = hasForked r,
                        eng_error = eng_error r, eng_username = u\<rparr>) (enumerate 0 unames)"
  by (simp add: checkUsersEngagementREST_def Let_def map_concat [symmetric] concat_slices)

lemma checkUsersEngagementREST_nth:
  assumes "i < length unames"
  shows "checkUsersEngagementREST env unames targetOwner targetRepo token ! i =
     \<lparr>hasStarred = starredCheck targetOwner targetRepo (starred_api env i (unames ! i)),
      hasForked = forkCheck targetOwner targetRepo (repos_api env i (unames ! i)),
      eng_error = None, eng_username = unames ! i\<rparr>"
  using assms
  by (simp add: checkUsersEngagementREST_eq nth_enumerate_eq checkUserEngagement_def)

text \<open>
  C9, as the route has it. For the handle at any position of the single-resource
  engagement check there is one result, carrying the handle. A call that does not
  yield a list (a fault, a response that is not ok, a body that cannot be read) leaves
  its flag \<open>false\<close>. The result never carries an \<open>error\<close> field, also when both calls
  fault; it then reports both flags \<open>false\<close>.
\<close>

theorem engagement_rest_flags:
  assumes "i < length unames"
  shows "length (checkUsersEngagementREST env unames targetOwner targetRepo token) = length unames
     \<and> eng_username (checkUsersEngagementREST env unames targetOwner targetRepo token ! i)
         = unames ! i
     \<and> eng_error (checkUsersEngagementREST env unames targetOwner targetRepo token ! i) = None
     \<and> ((\<forall>repos. starred_api env i (unames ! i) \<noteq> OkList repos) \<longrightarrow>
          \<not> hasStarred (checkUsersEngagementREST env unames targetOwner targetRepo token ! i))
     \<and> ((\<forall>repos. repos_api env i (unames ! i) \<noteq> OkList repos) \<longrightarrow>
          \<not> hasForked (checkUsersEngagementREST env unames targetOwner targetRepo token ! i))"
proof -
  have "length (checkUsersEngagementREST env unames targetOwner targetRepo token) = length unames"
    by (simp add: checkUsersEngagementREST_eq)
  moreover have "(\<forall>repos. starred_api env i (unames ! i) \<noteq> OkList repos) \<longrightarrow>
      \<not> starredCheck targetOwner targetRepo (starred_api env i (unames ! i))"
    by (cases "starred_api env i (unames ! i)") (simp_all add: starredCheck_def)
  moreover have "(\<forall>repos. repos_api env i (unames ! i) \<noteq> OkList repos) \<longrightarrow>
      \<not> forkCheck targetOwner targetRepo (repos_api env i (unames ! i))"
    by (cases "repos_api env i (unames ! i)") (simp_all add: forkCheck_def)
  ultimately show ?thesis
    by (simp add: checkUsersEngagementREST_nth [OF assms])
qed

theorem engagement_rest_flags_witness:
  "length (checkUsersEngagementREST remote_eng [''octocat'', ''ghost''] ''vercel'' ''next.js'' None) = 2
   \<and> starred_api remote_eng 0 ''octocat'' = NotOk 404
   \<and> \<not> hasStarred (checkUsersEngagementREST remote_eng [''octocat'', ''ghost'']
          ''vercel'' ''next.js'' None ! 0)
   \<and> hasForked (checkUsersEngagementREST remote_eng [''octocat'', ''ghost'']
          ''vercel'' ''next.js'' None ! 0)
   \<and> eng_error (checkUsersEngagementREST remote_eng [''octocat'', ''ghost'']
          ''vercel'' ''next.js'' None ! 0) = None
   \<and> starred_api remote_eng 1 ''ghost'' = CallThrows ''fetch failed''
   \<and> repos_api remote_eng 1 ''ghost'' = CallThrows ''fetch failed''
   \<and> \<not> hasStarred (checkUsersEngagementREST remote_eng [''octocat'', ''ghost'']
          ''vercel'' ''next.js'' None ! 1)
   \<and> \<not> hasForked (checkUsersEngagementREST remote_eng [''octocat'', ''ghost'']
          ''vercel'' ''next.js'' None ! 1)
   \<and> eng_error (checkUsersEngagementREST remote_eng [''octocat'', ''ghost'']
          ''vercel'' ''next.js'' None ! 1) = None"
proof -
  let ?us = "[''octocat'', ''ghost'']"
  have l: "0 < length ?us" "1 < length ?us" by simp_all
  have api: "starred_api remote_eng 0 (?us ! 0) = NotOk 404"
    "starred_api remote_eng 1 (?us ! 1) = CallThrows ''fetch failed''"
    "repos_api remote_eng 1 (?us ! 1) = CallThrows ''fetch failed''"
    by (simp_all add: remote_eng_def)
  have forked: "hasForked (checkUsersEngagementREST remote_eng ?us ''vercel'' ''next.js'' None ! 0)"
    by (simp add: checkUsersEngagementREST_nth remote_eng_def forkCheck_def same_text_def
        toLowerCase_def lower_char_def)
  from engagement_rest_flags [OF l(1), of remote_eng "''vercel''" "''next.js''" None]
    engagement_rest_flags [OF l(2), of remote_eng "''vercel''" "''next.js''" None]
    api forked
  show ?thesis
    by simp
qed

text \<open>
  C9 as stated fails where both calls fault: the result has no \<open>error\<close> field.
\<close>

theorem both_calls_fault_without_error:
  "checkUserEngagement ''vercel'' ''next.js''
       (CallThrows ''fetch failed'') (CallThrows ''fetch failed'')
     = \<lparr>hasStarred = False, hasForked = False, eng_error = None\<rparr>"
  by (simp add: checkUserEngagement_def starredCheck_def forkCheck_def)

end
